theory Spec2Isabelle
  imports Complex_Main "HOL-Library.Word" "HOL-Library.AList" "HOL-Library.Log_Nat"
begin

section \<open>Guru Meditation: error reporting, logging and the cascade detector\<close>

text \<open>
  A shallow embedding of \<^verbatim>\<open>guru.cpp\<close> (release 1.3, with its header) and of the older
  generation of the same file (release 1.0, with its header). The global variables of
  namespace \<^verbatim>\<open>guru\<close> and the static \<^verbatim>\<open>StackTrace::funcs\<close> form one state record that
  every function receives and returns. A call either returns, ends the process through
  \<^verbatim>\<open>exit\<close>, stays inside the halt screen, or is \<open>Undefined\<close>: it has no defined behaviour
  in C++, or it formats a message with a printf directive that the model does not render.

  Conditional compilation is a parameter: the record \<open>build\<close> says which release is
  compiled and which of \<^verbatim>\<open>GURU_USING_CONSOLE\<close>, \<^verbatim>\<open>GURU_USING_CURSES\<close> and
  \<^verbatim>\<open>GURU_USING_STACK_TRACE\<close> are defined. Builds with \<^verbatim>\<open>GURU_USING_LIBTCOD\<close> are not
  covered, and of the Curses calls only the text drawn and the keys read are kept.
  \<^verbatim>\<open>open_syslog\<close> is present through the state it leaves when it succeeds.

  The library is the one whose \<^verbatim>\<open>__PRETTY_FUNCTION__\<close> strings are used below, GCC with
  libstdc++: \<^verbatim>\<open>system_clock\<close> counts nanoseconds in a 64-bit integer, and \<^verbatim>\<open>float\<close> is
  IEEE 754 single precision.
\<close>

subsection \<open>Build configuration\<close>

datatype release = R1_0 | R1_3

record build =
  release :: release
  using_console :: bool
  using_curses :: bool
  using_stack_trace :: bool

text \<open>Release 1.0 has no \<^verbatim>\<open>GURU_USING_STACK_TRACE\<close> switch: its stack trace is always compiled.\<close>

definition stack_trace_enabled :: "build \<Rightarrow> bool" where
  "stack_trace_enabled b = (release b = R1_0 \<or> using_stack_trace b)"

subsection \<open>Constants of the source\<close>

abbreviation (input) GURU_INFO :: int where "GURU_INFO \<equiv> 0"
abbreviation (input) GURU_WARN :: int where "GURU_WARN \<equiv> 1"
abbreviation (input) GURU_ERROR :: int where "GURU_ERROR \<equiv> 2"
abbreviation (input) GURU_CRITICAL :: int where "GURU_CRITICAL \<equiv> 3"
abbreviation (input) GURU_STACK :: int where "GURU_STACK \<equiv> 4"

abbreviation (input) CASCADE_THRESHOLD :: "32 word" where "CASCADE_THRESHOLD \<equiv> 20"
abbreviation (input) CASCADE_TIMEOUT :: rat where "CASCADE_TIMEOUT \<equiv> 30"
abbreviation (input) CASCADE_WEIGHT_CRITICAL :: "32 word" where "CASCADE_WEIGHT_CRITICAL \<equiv> 4"
abbreviation (input) CASCADE_WEIGHT_ERROR :: "32 word" where "CASCADE_WEIGHT_ERROR \<equiv> 2"
abbreviation (input) CASCADE_WEIGHT_WARNING :: "32 word" where "CASCADE_WEIGHT_WARNING \<equiv> 1"
abbreviation (input) EXIT_FAILURE :: int where "EXIT_FAILURE \<equiv> 1"

text \<open>
  The value of \<^verbatim>\<open>__PRETTY_FUNCTION__\<close> in each function that opens a \<^verbatim>\<open>stack_trace()\<close>
  scope, as GCC prints it.
\<close>

definition pf_affirm :: string where
  "pf_affirm = ''void guru::affirm(int, std::string)''"
definition pf_close_syslog :: string where
  "pf_close_syslog = ''void guru::close_syslog()''"
definition pf_halt :: "build \<Rightarrow> string" where
  "pf_halt b =
     (if release b = R1_0 then ''void guru::halt(std::string)''
      else ''void guru::halt(std::string, ...)'')"
definition pf_halt_exception :: string where
  "pf_halt_exception = ''void guru::halt(std::exception&)''"
definition pf_intercept_signal :: string where
  "pf_intercept_signal = ''void guru::intercept_signal(int)''"
definition pf_nonfatal :: "build \<Rightarrow> string" where
  "pf_nonfatal b =
     (if release b = R1_0 then ''void guru::nonfatal(std::string, int)''
      else ''void guru::nonfatal(std::string, int, ...)'')"

subsection \<open>Decimal numbers and printf formats\<close>

definition digit_char :: "nat \<Rightarrow> char" where
  "digit_char d = ''0123456789'' ! (d mod 10)"

text \<open>\<^verbatim>\<open>std::to_string\<close> of an unsigned number (and \<^verbatim>\<open>guru_itos\<close> of release 1.0).\<close>

function to_string :: "nat \<Rightarrow> string" where
  "to_string n = (if n < 10 then [digit_char n] else to_string (n div 10) @ [digit_char n])"
  by pat_completeness auto
termination
  by (relation "measure (\<lambda>n. n)") auto

declare to_string.simps [simp del]

definition to_string_int :: "int \<Rightarrow> string" where
  "to_string_int i = (if i < 0 then CHR ''-'' # to_string (nat (- i)) else to_string (nat i))"

text \<open>
  \<^verbatim>\<open>c_str()\<close> hands a \<^verbatim>\<open>std::string\<close> to the C library, which reads it up to the first
  NUL character.
\<close>

definition c_str :: "string \<Rightarrow> string" where
  "c_str s = takeWhile (\<lambda>c. c \<noteq> CHR 0x00) s"

datatype fmt_arg = IntArg int | StrArg string

text \<open>A number in another base, and an \<^verbatim>\<open>int\<close> argument read as \<^verbatim>\<open>unsigned int\<close>.\<close>

function radix :: "nat \<Rightarrow> string \<Rightarrow> nat \<Rightarrow> string" where
  "radix base digits n =
     (if base < 2 \<or> n < base then [digits ! n]
      else radix base digits (n div base) @ [digits ! (n mod base)])"
  by pat_completeness auto
termination
  by (relation "measure (\<lambda>(base, digits, n). n)") auto

declare radix.simps [simp del]

definition as_unsigned :: "int \<Rightarrow> nat" where
  "as_unsigned i = unat (word_of_int i :: 32 word)"

text \<open>
  The conversions of the model: \<^verbatim>\<open>%d\<close>, \<^verbatim>\<open>%i\<close>, \<^verbatim>\<open>%u\<close>, \<^verbatim>\<open>%x\<close>, \<^verbatim>\<open>%X\<close>, \<^verbatim>\<open>%o\<close> and \<^verbatim>\<open>%c\<close>
  of an \<^verbatim>\<open>int\<close> argument, \<^verbatim>\<open>%s\<close> of a string argument. \<open>None\<close> stands for an argument of
  the other kind, which is undefined, and also for what the model does not render: flags,
  field widths, precisions, length modifiers and the remaining conversions.
\<close>

definition convert :: "char \<Rightarrow> fmt_arg \<Rightarrow> string option" where
  "convert d arg =
     (case arg of
        IntArg i \<Rightarrow>
          if d = CHR ''d'' \<or> d = CHR ''i'' then Some (to_string_int i)
          else if d = CHR ''u'' then Some (to_string (as_unsigned i))
          else if d = CHR ''x'' then Some (radix 16 ''0123456789abcdef'' (as_unsigned i))
          else if d = CHR ''X'' then Some (radix 16 ''0123456789ABCDEF'' (as_unsigned i))
          else if d = CHR ''o'' then Some (radix 8 ''01234567'' (as_unsigned i))
          else if d = CHR ''c'' then Some [char_of i]
          else None
      | StrArg t \<Rightarrow> if d = CHR ''s'' then Some (c_str t) else None)"

text \<open>
  A format: ordinary characters, \<^verbatim>\<open>%%\<close>, and conversions that take the arguments in
  order. A lone \<^verbatim>\<open>%\<close> at the end and a conversion with no argument left are undefined.
  Arguments left over are ignored, as in C.
\<close>

fun format :: "string \<Rightarrow> fmt_arg list \<Rightarrow> string option" where
  "format [] args = Some []"
| "format [c] args = (if c = CHR ''%'' then None else Some [c])"
| "format (c # d # ds) args =
     (if c = CHR ''%'' then
        (if d = CHR ''%'' then map_option ((#) (CHR ''%'')) (format ds args)
         else
           (case args of
              [] \<Rightarrow> None
            | arg # rest \<Rightarrow>
                (case convert d arg of
                   None \<Rightarrow> None
                 | Some text \<Rightarrow> map_option ((@) text) (format ds rest))))
      else map_option ((#) c) (format (d # ds) args))"

text \<open>
  \<^verbatim>\<open>vsprintf(buffer, fmt.c_str(), ap)\<close> into a buffer of \<open>cap\<close> bytes, read back with
  \<^verbatim>\<open>std::string(buffer)\<close>, which stops at the first NUL (one that \<^verbatim>\<open>%c\<close> has written, or
  the terminating one). Output that does not fit with its terminating NUL overruns the
  buffer: undefined.
\<close>

definition vsprintf :: "nat \<Rightarrow> string \<Rightarrow> fmt_arg list \<Rightarrow> string option" where
  "vsprintf cap fmt args =
     (case format (c_str fmt) args of
        None \<Rightarrow> None
      | Some r \<Rightarrow> if length r < cap then Some (c_str r) else None)"

text \<open>
  ``Construct the error string, if needed'': release 1.3 passes every message through
  \<^verbatim>\<open>vsprintf\<close> with a buffer of \<^verbatim>\<open>size() + 1024\<close> bytes; release 1.0 has no variadic
  arguments and uses the message as it is.
\<close>

definition construct :: "build \<Rightarrow> string \<Rightarrow> fmt_arg list \<Rightarrow> string option" where
  "construct b msg args =
     (if release b = R1_3 then vsprintf (length msg + 1024) msg args else Some msg)"

subsection \<open>State\<close>

datatype signal = SIGABRT | SIGFPE | SIGILL | SIGSEGV | SIGOTHER int

datatype disposition = SIG_DFL | SIG_IGN | Handler

datatype keypress = KEY_RESIZE | KEY_ESCAPE | KEY_OTHER int

text \<open>
  Calls into the C++ runtime and the user interface, in the order the program makes them.
  \<open>Halting\<close> is of another kind: it records that \<^verbatim>\<open>guru::halt\<close> has been entered, with the
  message it was given; no statement of the source stands behind it.
\<close>

datatype event =
    Pushed string
  | Popped
  | Wrote string
  | Closed
  | Signalled signal disposition
  | Printed string
  | Drawn string
  | Halting string

text \<open>
  The globals of \<^verbatim>\<open>guru.cpp\<close>, the shadow stack (top first), and the environment the code
  reads: the signal dispositions set so far (a signal not listed has its default), the
  system clock in nanoseconds since the epoch (read by \<^verbatim>\<open>system_clock::now()\<close>, and in
  whole seconds by \<^verbatim>\<open>time(nullptr)\<close>; it does not advance during a call, and its 64 bits
  are not bounded here), the offset of local time in seconds, and the key presses
  \<^verbatim>\<open>getch()\<close> will return. \<^verbatim>\<open>cascade_timer\<close> is a reading of that clock. The log file is
  the list of its lines; write errors of the stream are not modelled.
\<close>

record state =
  cascade_count :: "32 word"
  cascade_failure :: bool
  cascade_timer :: int
  dead_already :: bool
  fully_active :: bool
  last_log_message :: string
  message :: string
  syslog_open :: bool
  syslog_file :: "string list"
  funcs :: "string list"
  handlers :: "(signal \<times> disposition) list"
  clock :: int
  utc_offset :: int
  keys :: "keypress list"
  events :: "event list"

datatype outcome =
    Continue state
  | Exited int state
  | Presenting state
  | Undefined

text \<open>Sequencing: the second statement runs only when the first returns.\<close>

definition seq :: "(state \<Rightarrow> outcome) \<Rightarrow> (state \<Rightarrow> outcome) \<Rightarrow> state \<Rightarrow> outcome" where
  "seq f g s = (case f s of Continue s' \<Rightarrow> g s' | out \<Rightarrow> out)"

text \<open>The state a call leaves behind, whichever way it ends.\<close>

fun final :: "outcome \<Rightarrow> state option" where
  "final (Continue s) = Some s"
| "final (Exited c s) = Some s"
| "final (Presenting s) = Some s"
| "final Undefined = None"

subsection \<open>The stack-trace guard\<close>

text \<open>
  \<^verbatim>\<open>stack_trace()\<close> declares a \<^verbatim>\<open>StackTrace\<close> object, whose constructor pushes the function's
  name; its destructor, run when the function returns (not on \<^verbatim>\<open>exit\<close>), pops unless
  the stack is empty.
\<close>

definition stack_trace :: "build \<Rightarrow> string \<Rightarrow> state \<Rightarrow> state" where
  "stack_trace b func s =
     (if stack_trace_enabled b
      then s\<lparr>funcs := func # funcs s, events := events s @ [Pushed func]\<rparr>
      else s)"

definition stack_trace_end :: "build \<Rightarrow> state \<Rightarrow> outcome" where
  "stack_trace_end b s =
     (if stack_trace_enabled b \<and> funcs s \<noteq> []
      then Continue (s\<lparr>funcs := tl (funcs s), events := events s @ [Popped]\<rparr>)
      else Continue s)"

subsection \<open>The log\<close>

definition two_digits :: "nat \<Rightarrow> string" where
  "two_digits n = [digit_char (n div 10), digit_char n]"

text \<open>\<^verbatim>\<open>strftime("%H:%M:%S")\<close> of the local time of \<^verbatim>\<open>time(nullptr)\<close>.\<close>

definition time_str :: "state \<Rightarrow> string" where
  "time_str s =
     (let t = clock s div 1000000000 + utc_offset s
      in two_digits (nat (t div 3600 mod 24)) @ '':'' @
         two_digits (nat (t div 60 mod 60)) @ '':'' @
         two_digits (nat (t mod 60)))"

definition txt_tag :: "int \<Rightarrow> string" where
  "txt_tag type =
     (if type = GURU_WARN then ''[WARN] ''
      else if type = GURU_ERROR then ''[ERROR] ''
      else if type = GURU_CRITICAL then ''[CRITICAL] ''
      else [])"

definition log_line :: "state \<Rightarrow> int \<Rightarrow> string \<Rightarrow> string" where
  "log_line s type msg = ''['' @ time_str s @ ''] '' @ txt_tag type @ msg"

text \<open>
  \<^verbatim>\<open>guru::log\<close>. The test against \<^verbatim>\<open>last_log_message\<close> comes before the message is
  constructed, and the constructed message is what is remembered.
\<close>

definition guru_log :: "build \<Rightarrow> string \<Rightarrow> int \<Rightarrow> fmt_arg list \<Rightarrow> state \<Rightarrow> outcome" where
  "guru_log b msg type args s =
     (if \<not> syslog_open s then Continue s
      else if msg = last_log_message s then Continue s
      else
        (case construct b msg args of
           None \<Rightarrow> Undefined
         | Some m \<Rightarrow>
             Continue (s\<lparr>last_log_message := m,
                         syslog_file := syslog_file s @ [log_line s type m],
                         events := events s @ [Wrote (log_line s type m)]\<rparr>)))"

lemma guru_log_funcs: "guru_log b msg type args s = Continue s' \<Longrightarrow> funcs s' = funcs s"
  by (auto simp: guru_log_def split: if_splits option.splits)

subsection \<open>Closing the log\<close>

definition close_syslog :: "build \<Rightarrow> state \<Rightarrow> outcome" where
  "close_syslog b s =
     seq (guru_log b ''Guru system shutting down.'' GURU_INFO [])
    (seq (guru_log b ''The rest is silence.'' GURU_INFO [])
    (seq (\<lambda>s'. Continue (s'\<lparr>syslog_open := False, events := events s' @ [Closed]\<rparr>))
         (stack_trace_end b)))
       (stack_trace b pf_close_syslog s)"

definition console_ready :: "bool \<Rightarrow> state \<Rightarrow> outcome" where
  "console_ready ready s = Continue (s\<lparr>fully_active := ready\<rparr>)"

subsection \<open>The halt path\<close>

text \<open>
  The number in front of a stack-trace line: \<^verbatim>\<open>std::to_string\<close> of a \<^verbatim>\<open>size_t\<close> in release
  1.3; in release 1.0 the parameter of \<^verbatim>\<open>guru_itos\<close> is an \<^verbatim>\<open>unsigned int\<close>.
\<close>

definition frame_label :: "build \<Rightarrow> nat \<Rightarrow> string" where
  "frame_label b n =
     (if release b = R1_0 then to_string (unat (word_of_nat n :: 32 word)) else to_string n)"

text \<open>
  In release 1.0 \<^verbatim>\<open>guru_itos\<close> is a lambda inside \<^verbatim>\<open>halt\<close> that opens a \<^verbatim>\<open>stack_trace()\<close>
  scope of its own: each call pushes its frame and pops it again before the line is put
  together.
\<close>

definition pf_guru_itos :: string where
  "pf_guru_itos = ''guru::halt(std::string)::<lambda(unsigned int)>''"

definition guru_itos_scope :: "build \<Rightarrow> state \<Rightarrow> state" where
  "guru_itos_scope b s =
     (if release b = R1_0 then s\<lparr>events := events s @ [Pushed pf_guru_itos, Popped]\<rparr> else s)"

lemma guru_itos_scope_fields [simp]:
  "funcs (guru_itos_scope b s) = funcs s"
  "syslog_open (guru_itos_scope b s) = syslog_open s"
  "syslog_file (guru_itos_scope b s) = syslog_file s"
  "last_log_message (guru_itos_scope b s) = last_log_message s"
  "clock (guru_itos_scope b s) = clock s"
  "utc_offset (guru_itos_scope b s) = utc_offset s"
  by (simp_all add: guru_itos_scope_def)

text \<open>
  The \<^verbatim>\<open>while(true)\<close> loop of the stack trace: log the top frame with the number
  \<^verbatim>\<open>size() - 1\<close>, then pop if more than one frame is left, else stop. \<^verbatim>\<open>top()\<close> of an
  empty stack is undefined.
\<close>

function trace_loop :: "build \<Rightarrow> state \<Rightarrow> outcome" where
  "trace_loop b s =
     (case funcs s of
        [] \<Rightarrow> Undefined
      | func # rest \<Rightarrow>
          (case guru_log b (frame_label b (length (funcs s) - 1) @ '': '' @ func) GURU_STACK []
                  (guru_itos_scope b s) of
             Continue s' \<Rightarrow>
               if length (funcs s') > 1
               then trace_loop b (s'\<lparr>funcs := tl (funcs s'), events := events s' @ [Popped]\<rparr>)
               else Continue s'
           | out \<Rightarrow> out))"
  by pat_completeness auto
termination
  by (relation "measure (\<lambda>(b, s). length (funcs s))") (auto dest: guru_log_funcs)

declare trace_loop.simps [simp del]

text \<open>The stack-trace block of \<^verbatim>\<open>halt\<close>, compiled when the stack trace is.\<close>

definition halt_stack_trace :: "build \<Rightarrow> state \<Rightarrow> outcome" where
  "halt_stack_trace b s =
     (if stack_trace_enabled b \<and> funcs s \<noteq> []
      then seq (guru_log b ''Stack trace follows:'' GURU_STACK []) (trace_loop b) s
      else Continue s)"

text \<open>
  The Curses screen of \<^verbatim>\<open>halt\<close>: each pass of the loop draws the notice when \<open>redraw\<close> is
  set and then waits in \<^verbatim>\<open>getch()\<close>. With no key left to read the call stays there.
  Escape restores the terminal, closes the log and exits. Release 1.0 logs \<^verbatim>\<open>"loop"\<close> at
  the start of each pass.
\<close>

definition curses_pass :: "build \<Rightarrow> bool \<Rightarrow> state \<Rightarrow> outcome" where
  "curses_pass b redraw s =
     seq (if release b = R1_0 then guru_log b ''loop'' GURU_INFO [] else Continue)
         (\<lambda>s'. Continue (if redraw
                          then s'\<lparr>events := events s' @
                                 [Drawn ''Software Failure, Halting Execution'', Drawn (c_str (message s'))]\<rparr>
                          else s')) s"

fun curses_loop :: "build \<Rightarrow> bool \<Rightarrow> keypress list \<Rightarrow> state \<Rightarrow> outcome" where
  "curses_loop b redraw [] s =
     (case curses_pass b redraw s of Continue s' \<Rightarrow> Presenting s' | out \<Rightarrow> out)"
| "curses_loop b redraw (k # ks) s =
     (case curses_pass b redraw s of
        Continue s' \<Rightarrow>
          (case k of
             KEY_RESIZE \<Rightarrow> curses_loop b True ks (s'\<lparr>keys := ks\<rparr>)
           | KEY_ESCAPE \<Rightarrow>
               (case close_syslog b (s'\<lparr>keys := ks\<rparr>) of
                  Continue s'' \<Rightarrow> Exited 1 s''
                | out \<Rightarrow> out)
           | KEY_OTHER c \<Rightarrow> curses_loop b False ks (s'\<lparr>keys := ks\<rparr>))
      | out \<Rightarrow> out)"

text \<open>
  What \<^verbatim>\<open>halt\<close> does after logging: the exits, the test of \<^verbatim>\<open>dead_already\<close>, and the notice.
  \<^verbatim>\<open>printf\<close> reads the message as a format once more. With neither console nor Curses,
  release 1.3 exits and release 1.0 returns to its caller.
\<close>

definition halt_present :: "build \<Rightarrow> string \<Rightarrow> state \<Rightarrow> outcome" where
  "halt_present b error s =
     (if using_curses b \<and> \<not> fully_active s then Exited EXIT_FAILURE s
      else if dead_already s then
        (case guru_log b ''Detected cleanup in process, attempting to die peacefully.'' GURU_WARN [] s of
           Continue s' \<Rightarrow> Exited EXIT_FAILURE s'
         | out \<Rightarrow> out)
      else
        (let s1 = s\<lparr>message := error\<rparr> in
         if using_console b then
           (case format (c_str (message s1 @ [CHR 0x0A])) [] of
              None \<Rightarrow> Undefined
            | Some text \<Rightarrow>
                Exited EXIT_FAILURE
                  (s1\<lparr>events := events s1 @
                      [Printed (''Software Failure, Halting Execution'' @ [CHR 0x0A]), Printed text]\<rparr>))
         else if using_curses b then
           (let s2 = (if length (message s1) > 39 then s1\<lparr>message := take 39 (message s1)\<rparr> else s1)
            in curses_loop b True (keys s2) s2)
         else if release b = R1_3 then Exited EXIT_FAILURE s1
         else Continue s1))"

text \<open>The record of a call of \<^verbatim>\<open>halt\<close>.\<close>

definition halt_entered :: "string \<Rightarrow> state \<Rightarrow> state" where
  "halt_entered error s = s\<lparr>events := events s @ [Halting error]\<rparr>"

text \<open>\<^verbatim>\<open>guru::halt(std::string error, ...)\<close>.\<close>

definition halt :: "build \<Rightarrow> string \<Rightarrow> fmt_arg list \<Rightarrow> state \<Rightarrow> outcome" where
  "halt b error args s =
     (case construct b error args of
        None \<Rightarrow> Undefined
      | Some err \<Rightarrow>
          seq (guru_log b ''Software Failure, Halting Execution'' GURU_CRITICAL [])
         (seq (guru_log b err GURU_CRITICAL [])
         (seq (halt_stack_trace b)
         (seq (halt_present b err)
              (stack_trace_end b))))
            (stack_trace b (pf_halt b) (halt_entered error s)))"

text \<open>\<^verbatim>\<open>guru::halt(std::exception &e)\<close>, given \<^verbatim>\<open>e.what()\<close>; release 1.3 only.\<close>

definition halt_exception :: "build \<Rightarrow> string \<Rightarrow> state \<Rightarrow> outcome" where
  "halt_exception b what s =
     seq (halt b what []) (stack_trace_end b) (stack_trace b pf_halt_exception s)"

definition affirm :: "build \<Rightarrow> int \<Rightarrow> string \<Rightarrow> state \<Rightarrow> outcome" where
  "affirm b condition error s =
     seq (if condition = 0 then halt b error [] else Continue)
         (stack_trace_end b) (stack_trace b pf_affirm s)"

subsection \<open>Signals\<close>

definition disposition_of :: "state \<Rightarrow> signal \<Rightarrow> disposition" where
  "disposition_of s sig = (case map_of (handlers s) sig of None \<Rightarrow> SIG_DFL | Some d \<Rightarrow> d)"

text \<open>\<^verbatim>\<open>signal(sig, SIG_IGN)\<close>.\<close>

definition signal_ignore :: "signal \<Rightarrow> state \<Rightarrow> state" where
  "signal_ignore sig s =
     s\<lparr>handlers := AList.update sig SIG_IGN (handlers s),
       events := events s @ [Signalled sig SIG_IGN]\<rparr>"

definition sig_type :: "signal \<Rightarrow> string" where
  "sig_type sig =
     (case sig of
        SIGABRT \<Rightarrow> ''Software requested abort.''
      | SIGFPE \<Rightarrow> ''Floating-point exception.''
      | SIGILL \<Rightarrow> ''Illegal instruction.''
      | SIGSEGV \<Rightarrow> ''Segmentation fault.''
      | SIGOTHER n \<Rightarrow> ''Intercepted unknown signal.'')"

text \<open>\<^verbatim>\<open>guru::intercept_signal\<close>: the scope guard, the \<^verbatim>\<open>switch\<close>, the four \<^verbatim>\<open>signal\<close> calls, \<^verbatim>\<open>halt\<close>.\<close>

definition intercept_signal :: "build \<Rightarrow> signal \<Rightarrow> state \<Rightarrow> outcome" where
  "intercept_signal b sig s =
     (let s1 = stack_trace b pf_intercept_signal s;
          phrase = sig_type sig;
          s2 = signal_ignore SIGFPE (signal_ignore SIGILL (signal_ignore SIGSEGV (signal_ignore SIGABRT s1)))
      in seq (halt b phrase []) (stack_trace_end b) s2)"

subsection \<open>Non-fatal reports and the cascade detector\<close>

definition cascade_weight :: "int \<Rightarrow> 32 word" where
  "cascade_weight type =
     (if type = GURU_WARN then CASCADE_WEIGHT_WARNING
      else if type = GURU_ERROR then CASCADE_WEIGHT_ERROR
      else if type = GURU_CRITICAL then CASCADE_WEIGHT_CRITICAL
      else 0)"

text \<open>
  \<^verbatim>\<open>elapsed_seconds\<close> is a \<^verbatim>\<open>std::chrono::duration<float>\<close>: the difference of two readings
  of the clock, a whole number of nanoseconds, is converted to \<^verbatim>\<open>float\<close> and divided by
  \<^verbatim>\<open>1000000000.0f\<close>, and each of the two steps rounds to the nearest single-precision
  number. The numbers are kept as rationals, with no bound on the exponent (no difference
  of two 64-bit readings comes near one).
\<close>

text \<open>Rounding a rational to the nearest integer, a tie to the even one.\<close>

definition rne :: "rat \<Rightarrow> int" where
  "rne x = (let f = \<lfloor>x\<rfloor>; d = x - of_int f
            in if d < 1 / 2 \<or> (d = 1 / 2 \<and> even f) then f else f + 1)"

text \<open>The binary exponent of a positive rational: \<open>2\<^sup>e \<le> x < 2\<^sup>e\<^sup>+\<^sup>1\<close>.\<close>

definition ilog2 :: "rat \<Rightarrow> int" where
  "ilog2 x = (let (a, b) = quotient_of x; e = bitlen a - bitlen b
              in if 2 powi e \<le> x then e else e - 1)"

text \<open>The single-precision number nearest to \<open>x\<close>: 24 significant bits.\<close>

definition float_round :: "rat \<Rightarrow> rat" where
  "float_round x =
     (if x = 0 then 0
      else let u = 2 powi (ilog2 \<bar>x\<bar> - 23)
           in sgn x * of_int (rne (\<bar>x\<bar> / u)) * u)"

definition elapsed_seconds :: "state \<Rightarrow> rat" where
  "elapsed_seconds s =
     float_round (float_round (of_int (clock s - cascade_timer s)) / 1000000000)"

text \<open>
  The block \<^verbatim>\<open>if (cascade_weight) { ... }\<close> of \<^verbatim>\<open>nonfatal\<close>; \<^verbatim>\<open>CASCADE_TIMEOUT\<close> is
  converted to \<^verbatim>\<open>float\<close> for the comparison, without loss.
\<close>

definition nonfatal_cascade :: "build \<Rightarrow> 32 word \<Rightarrow> state \<Rightarrow> outcome" where
  "nonfatal_cascade b weight s =
     (if weight = 0 then Continue s
      else if elapsed_seconds s \<le> CASCADE_TIMEOUT then
        (let s1 = s\<lparr>cascade_count := cascade_count s + weight\<rparr>
         in if cascade_count s1 > CASCADE_THRESHOLD
            then halt b ''Cascade failure detected!'' [] (s1\<lparr>cascade_failure := True\<rparr>)
            else Continue s1)
      else Continue (s\<lparr>cascade_timer := clock s, cascade_count := 0\<rparr>))"

text \<open>
  \<^verbatim>\<open>guru::nonfatal\<close>. The \<^verbatim>\<open>default\<close> branch of the \<^verbatim>\<open>switch\<close> reports the wrong
  severity by a call of \<^verbatim>\<open>nonfatal\<close> itself, as a warning, before the message is logged.
\<close>

function nonfatal :: "build \<Rightarrow> string \<Rightarrow> int \<Rightarrow> fmt_arg list \<Rightarrow> state \<Rightarrow> outcome" where
  "nonfatal b error type args s =
     (if cascade_failure s then Continue s
      else
        (case construct b error args of
           None \<Rightarrow> Undefined
         | Some err \<Rightarrow>
             (case (if type = GURU_WARN \<or> type = GURU_ERROR \<or> type = GURU_CRITICAL
                    then Continue (stack_trace b (pf_nonfatal b) s)
                    else nonfatal b ''Nonfatal error reported with incorrect severity specified.''
                           GURU_WARN [] (stack_trace b (pf_nonfatal b) s)) of
                Continue s' \<Rightarrow>
                  seq (guru_log b err type [])
                 (seq (nonfatal_cascade b (cascade_weight type))
                      (stack_trace_end b)) s'
              | out \<Rightarrow> out)))"
  by pat_completeness auto
termination
  by (relation "measure (\<lambda>(b, error, type, args, s).
        if type = GURU_WARN \<or> type = GURU_ERROR \<or> type = GURU_CRITICAL then 0 else 1)") auto

declare nonfatal.simps [simp del]

subsection \<open>Program start\<close>

text \<open>
  The globals as their declarations initialise them (\<^verbatim>\<open>cascade_timer\<close> is the epoch, the
  log is not open, the stack is empty), in an environment with the clock at \<open>t\<close>, default
  signal dispositions and no key pressed.
\<close>

definition initial :: "int \<Rightarrow> state" where
  "initial t =
     \<lparr>cascade_count = 0, cascade_failure = False, cascade_timer = 0, dead_already = False,
      fully_active = False, last_log_message = [], message = [], syslog_open = False,
      syslog_file = [], funcs = [], handlers = [], clock = t, utc_offset = 0,
      keys = [], events = []\<rparr>"

subsection \<open>Messages without printf directives\<close>

text \<open>A message with no \<^verbatim>\<open>%\<close> and no NUL is constructed as itself.\<close>

definition plain :: "string \<Rightarrow> bool" where
  "plain m = (CHR ''%'' \<notin> set m \<and> CHR 0x00 \<notin> set m)"

lemma format_plain: "CHR ''%'' \<notin> set m \<Longrightarrow> format m args = Some m"
  by (induction m args rule: format.induct) auto

lemma c_str_plain: "CHR 0x00 \<notin> set m \<Longrightarrow> c_str m = m"
  by (auto simp: c_str_def takeWhile_eq_all_conv)

lemma construct_plain: "plain m \<Longrightarrow> construct b m args = Some m"
  by (simp add: construct_def vsprintf_def plain_def format_plain c_str_plain)

lemma guru_log_plain:
  "plain m \<Longrightarrow> guru_log b m type args s =
     Continue (if syslog_open s \<and> m \<noteq> last_log_message s
               then s\<lparr>last_log_message := m,
                      syslog_file := syslog_file s @ [log_line s type m],
                      events := events s @ [Wrote (log_line s type m)]\<rparr>
               else s)"
  by (simp add: guru_log_def construct_plain)

subsection \<open>The thirty seconds of the cascade window\<close>

lemma rne_of_int: "rne (of_int n) = n"
  by (simp add: rne_def)

lemma rne_bounds: "\<lfloor>x\<rfloor> \<le> rne x \<and> rne x \<le> \<lfloor>x\<rfloor> + 1"
  by (simp add: rne_def Let_def)

lemma rne_mono: "x \<le> y \<Longrightarrow> rne x \<le> rne y"
proof -
  assume le: "x \<le> y"
  have fl: "\<lfloor>x\<rfloor> \<le> \<lfloor>y\<rfloor>" using le by (rule floor_mono)
  show ?thesis
  proof (cases "\<lfloor>x\<rfloor> = \<lfloor>y\<rfloor>")
    case True
    then have "x - of_int \<lfloor>x\<rfloor> \<le> y - of_int \<lfloor>y\<rfloor>" using le by simp
    then show ?thesis using True by (auto simp: rne_def Let_def)
  next
    case False
    then have "\<lfloor>x\<rfloor> + 1 \<le> \<lfloor>y\<rfloor>" using fl by simp
    then show ?thesis using rne_bounds [of x] rne_bounds [of y] by linarith
  qed
qed

lemma pow2_int: "0 \<le> k \<Longrightarrow> (2::rat) powi k = of_int (2 ^ nat k)"
  by (simp add: power_int_def)

lemma ilog2_bounds:
  assumes "0 < x"
  shows "2 powi (ilog2 x) \<le> x" and "x < 2 powi (ilog2 x + 1)"
proof -
  obtain a b where q: "quotient_of x = (a, b)" by (cases "quotient_of x")
  have b: "0 < b" using q quotient_of_denom_pos by blast
  have x: "x = of_int a / of_int b" using q by (rule quotient_of_div)
  have a: "0 < a" using assms b x by (simp add: zero_less_divide_iff)
  let ?e = "bitlen a - bitlen b"
  have la: "1 \<le> bitlen a" and lb: "1 \<le> bitlen b"
    using a b bitlen_eq_zero_iff [of a] bitlen_eq_zero_iff [of b] bitlen_nonneg [of a] bitlen_nonneg [of b]
    by linarith+
  have "a < 2 ^ nat (bitlen a)" "2 ^ nat (bitlen b - 1) \<le> b"
    using bitlen_bounds [OF a] bitlen_bounds [OF b] by simp_all
  then have "(of_int a :: rat) < of_int (2 ^ nat (bitlen a))" "(of_int (2 ^ nat (bitlen b - 1)) :: rat) \<le> of_int b"
    by (simp_all only: of_int_less_iff of_int_le_iff)
  then have ua: "(of_int a :: rat) < 2 powi (bitlen a)" and lb': "(2::rat) powi (bitlen b - 1) \<le> of_int b"
    using la lb by (simp_all add: pow2_int)
  have "2 ^ nat (bitlen a - 1) \<le> a" "b < 2 ^ nat (bitlen b)"
    using bitlen_bounds [OF a] bitlen_bounds [OF b] by simp_all
  then have "(of_int (2 ^ nat (bitlen a - 1)) :: rat) \<le> of_int a" "(of_int b :: rat) < of_int (2 ^ nat (bitlen b))"
    by (simp_all only: of_int_less_iff of_int_le_iff)
  then have la': "(2::rat) powi (bitlen a - 1) \<le> of_int a" and ub: "(of_int b :: rat) < 2 powi (bitlen b)"
    using la lb by (simp_all add: pow2_int)
  have bpos: "(0::rat) < of_int b" using b by simp
  have up: "x < 2 powi (?e + 1)"
  proof -
    have "of_int a < (2::rat) powi (?e + 1) * 2 powi (bitlen b - 1)"
      using ua by (simp add: power_int_add [symmetric])
    also have "\<dots> \<le> 2 powi (?e + 1) * of_int b"
      using lb' by (simp add: mult_left_mono)
    finally show ?thesis using bpos by (simp add: x pos_divide_less_eq)
  qed
  have lo: "2 powi (?e - 1) < x"
  proof -
    have "(2::rat) powi (?e - 1) * of_int b < 2 powi (?e - 1) * 2 powi (bitlen b)"
      using ub by (simp add: mult_strict_left_mono)
    also have "\<dots> = 2 powi (bitlen a - 1)"
      by (simp add: power_int_add [symmetric])
    also have "\<dots> \<le> of_int a" by (rule la')
    finally show ?thesis using bpos by (simp add: x pos_less_divide_eq)
  qed
  show "2 powi (ilog2 x) \<le> x"
    using lo by (simp add: ilog2_def q Let_def)
  show "x < 2 powi (ilog2 x + 1)"
    using up by (auto simp: ilog2_def q Let_def)
qed

lemma ilog2_mono:
  assumes "0 < x" "x \<le> y"
  shows "ilog2 x \<le> ilog2 y"
proof -
  have "(2::rat) powi (ilog2 x) \<le> x" using assms(1) by (rule ilog2_bounds)
  also have "x \<le> y" by fact
  also have "y < 2 powi (ilog2 y + 1)" using assms by (intro ilog2_bounds) simp
  finally have "(2::rat) powi (ilog2 x) < 2 powi (ilog2 y + 1)" .
  moreover have "(2::rat) powi (ilog2 y + 1) \<le> 2 powi (ilog2 x)" if "ilog2 y + 1 \<le> ilog2 x"
    using that by (intro power_int_increasing) simp_all
  ultimately show ?thesis by force
qed

lemma float_round_pos:
  assumes "0 < x"
  shows "float_round x = of_int (rne (x / 2 powi (ilog2 x - 23))) * 2 powi (ilog2 x - 23)"
  using assms by (simp add: float_round_def Let_def)

lemma float_round_neg: "float_round (- x) = - float_round x"
  by (simp add: float_round_def Let_def)

lemma float_round_bounds:
  assumes "0 < x"
  shows "2 powi (ilog2 x) \<le> float_round x" and "float_round x \<le> 2 powi (ilog2 x + 1)"
proof -
  let ?u = "(2::rat) powi (ilog2 x - 23)"
  have u: "0 < ?u" by simp
  have lo: "?u * 2 ^ 23 = 2 powi (ilog2 x)" and hi: "?u * 2 ^ 24 = 2 powi (ilog2 x + 1)"
    by (simp_all add: power_int_diff power_int_add)
  have "of_int (2 ^ 23) \<le> x / ?u"
    using ilog2_bounds(1) [OF assms] u lo by (simp add: pos_le_divide_eq mult.commute)
  then have "rne (of_int (2 ^ 23)) \<le> rne (x / ?u)" by (rule rne_mono)
  then have "2 ^ 23 \<le> rne (x / ?u)" by (simp only: rne_of_int)
  then have "(of_int (2 ^ 23) :: rat) \<le> of_int (rne (x / ?u))" by (simp only: of_int_le_iff)
  then have "of_int (2 ^ 23) * ?u \<le> of_int (rne (x / ?u)) * ?u"
    using u by (simp only: mult_le_cancel_right_pos)
  then have "?u * 2 ^ 23 \<le> of_int (rne (x / ?u)) * ?u" by (simp add: mult.commute)
  then show "2 powi (ilog2 x) \<le> float_round x"
    by (simp only: lo float_round_pos [OF assms])
  have "x / ?u \<le> of_int (2 ^ 24)"
    using ilog2_bounds(2) [OF assms] u hi by (simp add: pos_divide_le_eq mult.commute)
  then have "rne (x / ?u) \<le> rne (of_int (2 ^ 24))" by (rule rne_mono)
  then have "rne (x / ?u) \<le> 2 ^ 24" by (simp only: rne_of_int)
  then have "(of_int (rne (x / ?u)) :: rat) \<le> of_int (2 ^ 24)" by (simp only: of_int_le_iff)
  then have "of_int (rne (x / ?u)) * ?u \<le> of_int (2 ^ 24) * ?u"
    using u by (simp only: mult_le_cancel_right_pos)
  then have "of_int (rne (x / ?u)) * ?u \<le> ?u * 2 ^ 24" by (simp add: mult.commute)
  then show "float_round x \<le> 2 powi (ilog2 x + 1)"
    by (simp only: hi float_round_pos [OF assms])
qed

lemma float_round_mono_pos:
  assumes "0 < x" "x \<le> y"
  shows "float_round x \<le> float_round y"
proof -
  have y: "0 < y" using assms by simp
  have le: "ilog2 x \<le> ilog2 y" using assms by (rule ilog2_mono)
  show ?thesis
  proof (cases "ilog2 x = ilog2 y")
    case True
    let ?u = "(2::rat) powi (ilog2 y - 23)"
    have u: "0 < ?u" by simp
    have "x / ?u \<le> y / ?u" using assms(2) u by (simp add: divide_right_mono)
    then have "rne (x / ?u) \<le> rne (y / ?u)" by (rule rne_mono)
    then have "(of_int (rne (x / ?u)) :: rat) \<le> of_int (rne (y / ?u))" by (simp only: of_int_le_iff)
    then have "of_int (rne (x / ?u)) * ?u \<le> of_int (rne (y / ?u)) * ?u"
      using u by (simp only: mult_le_cancel_right_pos)
    then show ?thesis
      by (simp only: float_round_pos [OF assms(1)] float_round_pos [OF y] True)
  next
    case False
    then have "ilog2 x + 1 \<le> ilog2 y" using le by simp
    then have "(2::rat) powi (ilog2 x + 1) \<le> 2 powi (ilog2 y)"
      by (intro power_int_increasing) simp_all
    then show ?thesis
      using float_round_bounds(2) [OF assms(1)] float_round_bounds(1) [OF y] by linarith
  qed
qed

lemma float_round_nonneg: "0 \<le> x \<Longrightarrow> 0 \<le> float_round x"
proof (cases "x = 0")
  case True
  then show ?thesis by (simp add: float_round_def)
next
  case False
  assume "0 \<le> x"
  then have x: "0 < x" using False by simp
  have "(0::rat) \<le> 2 powi (ilog2 x)" by simp
  then show ?thesis using float_round_bounds(1) [OF x] by linarith
qed

lemma float_round_mono:
  assumes "x \<le> y"
  shows "float_round x \<le> float_round y"
proof -
  consider "0 < x" | "x \<le> 0" "0 \<le> y" | "y < 0" by linarith
  then show ?thesis
  proof cases
    case 1
    then show ?thesis using assms by (rule float_round_mono_pos)
  next
    case 2
    have "0 \<le> float_round (- x)" using 2(1) by (intro float_round_nonneg) simp
    then have "float_round x \<le> 0" by (simp add: float_round_neg)
    then show ?thesis using float_round_nonneg [OF 2(2)] by linarith
  next
    case 3
    have "float_round (- y) \<le> float_round (- x)"
      using 3 assms by (intro float_round_mono_pos) simp_all
    then show ?thesis by (simp add: float_round_neg)
  qed
qed

text \<open>
  What the comparison of \<^verbatim>\<open>elapsed_seconds\<close> with \<^verbatim>\<open>CASCADE_TIMEOUT\<close> comes to: thirty
  seconds exactly are 30000000000 nanoseconds, which \<^verbatim>\<open>float\<close> rounds up to 30000001024,
  and the quotient rounds to the number above 30. The window is open for less than thirty
  seconds.
\<close>

abbreviation (input) seconds :: "int \<Rightarrow> int" where
  "seconds n \<equiv> n * 1000000000"

lemma elapsed_seconds_mono:
  "clock s - cascade_timer s \<le> clock s' - cascade_timer s' \<Longrightarrow>
   elapsed_seconds s \<le> elapsed_seconds s'"
  unfolding elapsed_seconds_def
  by (intro float_round_mono divide_right_mono) simp_all

lemma window_open:
  "(elapsed_seconds s \<le> CASCADE_TIMEOUT) = (clock s - cascade_timer s < seconds 30)"
proof
  let ?at = "\<lambda>n. s\<lparr>clock := n, cascade_timer := 0\<rparr>"
  assume a: "elapsed_seconds s \<le> CASCADE_TIMEOUT"
  show "clock s - cascade_timer s < seconds 30"
  proof (rule ccontr)
    assume "\<not> clock s - cascade_timer s < seconds 30"
    then have "elapsed_seconds (?at 30000000000) \<le> elapsed_seconds s"
      by (intro elapsed_seconds_mono) simp
    moreover have "\<not> float_round (float_round (of_int 30000000000) / 1000000000) \<le> 30"
      by code_simp
    ultimately show False using a by (simp add: elapsed_seconds_def)
  qed
next
  let ?at = "\<lambda>n. s\<lparr>clock := n, cascade_timer := 0\<rparr>"
  assume "clock s - cascade_timer s < seconds 30"
  then have "elapsed_seconds s \<le> elapsed_seconds (?at 29999999999)"
    by (intro elapsed_seconds_mono) simp
  moreover have "float_round (float_round (of_int 29999999999) / 1000000000) \<le> 30"
    by code_simp
  ultimately show "elapsed_seconds s \<le> CASCADE_TIMEOUT"
    by (simp add: elapsed_seconds_def)
qed

text \<open>Release 1.0 constructs nothing: there every message is used as it is.\<close>

lemma construct_literal: "release b = R1_0 \<or> plain m \<Longrightarrow> construct b m args = Some m"
  by (auto simp: construct_plain) (simp add: construct_def)

lemma guru_log_literal:
  "release b = R1_0 \<or> plain m \<Longrightarrow> guru_log b m type args s =
     Continue (if syslog_open s \<and> m \<noteq> last_log_message s
               then s\<lparr>last_log_message := m,
                      syslog_file := syslog_file s @ [log_line s type m],
                      events := events s @ [Wrote (log_line s type m)]\<rparr>
               else s)"
  by (simp add: guru_log_def construct_literal)

subsection \<open>What the log and the halt path leave alone\<close>

text \<open>
  The part of the state that neither the log nor the halt path writes: the cascade
  detector, \<^verbatim>\<open>dead_already\<close>, the signal dispositions and the clock.
\<close>

definition detector ::
  "state \<Rightarrow> 32 word \<times> bool \<times> int \<times> bool \<times> (signal \<times> disposition) list \<times> int \<times> int" where
  "detector s =
     (cascade_count s, cascade_failure s, cascade_timer s, dead_already s, handlers s,
      clock s, utc_offset s)"

definition preserves :: "(state \<Rightarrow> outcome) \<Rightarrow> bool" where
  "preserves f = (\<forall>s s'. final (f s) = Some s' \<longrightarrow> detector s' = detector s)"

lemma preservesI: "(\<And>s s'. final (f s) = Some s' \<Longrightarrow> detector s' = detector s) \<Longrightarrow> preserves f"
  by (simp add: preserves_def)

lemma preservesD: "preserves f \<Longrightarrow> final (f s) = Some s' \<Longrightarrow> detector s' = detector s"
  by (simp add: preserves_def)

lemma preserves_Continue: "preserves Continue"
  by (simp add: preserves_def)

lemma preserves_seq: "preserves f \<Longrightarrow> preserves g \<Longrightarrow> preserves (seq f g)"
  unfolding preserves_def seq_def
  by (auto split: outcome.splits)

lemma preserves_guru_log: "preserves (guru_log b msg type args)"
  by (auto simp: preserves_def guru_log_def detector_def split: if_splits option.splits)

lemma detector_stack_trace: "detector (stack_trace b func s) = detector s"
  by (simp add: stack_trace_def detector_def)

lemma preserves_stack_trace_end: "preserves (stack_trace_end b)"
  by (auto simp: preserves_def stack_trace_end_def detector_def split: if_splits)

lemma detector_guru_itos_scope: "detector (guru_itos_scope b s) = detector s"
  by (simp add: guru_itos_scope_def detector_def)

lemma preserves_trace_loop: "preserves (trace_loop b)"
proof (rule preservesI)
  fix s s'
  show "final (trace_loop b s) = Some s' \<Longrightarrow> detector s' = detector s"
  proof (induction b s rule: trace_loop.induct)
    case (1 b s)
    show ?case
    proof (cases "funcs s")
      case Nil
      with "1.prems" show ?thesis by (simp add: trace_loop.simps)
    next
      case (Cons func rest)
      show ?thesis
      proof (cases "guru_log b (frame_label b (length (funcs s) - 1) @ '': '' @ func) GURU_STACK []
                      (guru_itos_scope b s)")
        case (Continue s1)
        have "final (guru_log b (frame_label b (length (funcs s) - 1) @ '': '' @ func) GURU_STACK []
                (guru_itos_scope b s)) = Some s1"
          using Continue by simp
        then have "detector s1 = detector (guru_itos_scope b s)"
          by (rule preservesD [OF preserves_guru_log])
        then have d1: "detector s1 = detector s"
          by (simp add: detector_guru_itos_scope)
        show ?thesis
        proof (cases "length (funcs s1) > 1")
          case True
          let ?s2 = "s1\<lparr>funcs := tl (funcs s1), events := events s1 @ [Popped]\<rparr>"
          have "final (trace_loop b ?s2) = Some s'"
            using "1.prems" Cons Continue True by (simp add: trace_loop.simps [of b s])
          then have "detector s' = detector ?s2"
            using "1.IH" [OF Cons Continue True] by simp
          then show ?thesis using d1 by (simp add: detector_def)
        next
          case False
          then have "s' = s1"
            using "1.prems" Cons Continue by (simp add: trace_loop.simps [of b s])
          then show ?thesis using d1 by simp
        qed
      next
        case (Exited c s1)
        then have "final (guru_log b (frame_label b (length (funcs s) - 1) @ '': '' @ func) GURU_STACK []
                     (guru_itos_scope b s)) = Some s'"
          using "1.prems" Cons by (simp add: trace_loop.simps [of b s])
        then have "detector s' = detector (guru_itos_scope b s)"
          by (rule preservesD [OF preserves_guru_log])
        then show ?thesis
          by (simp add: detector_guru_itos_scope)
      next
        case (Presenting s1)
        then have "final (guru_log b (frame_label b (length (funcs s) - 1) @ '': '' @ func) GURU_STACK []
                     (guru_itos_scope b s)) = Some s'"
          using "1.prems" Cons by (simp add: trace_loop.simps [of b s])
        then have "detector s' = detector (guru_itos_scope b s)"
          by (rule preservesD [OF preserves_guru_log])
        then show ?thesis
          by (simp add: detector_guru_itos_scope)
      next
        case Undefined
        then show ?thesis
          using "1.prems" Cons by (simp add: trace_loop.simps [of b s])
      qed
    qed
  qed
qed

lemma preserves_halt_stack_trace: "preserves (halt_stack_trace b)"
proof (rule preservesI)
  fix s s'
  assume "final (halt_stack_trace b s) = Some s'"
  then show "detector s' = detector s"
    using preservesD [OF preserves_seq [OF preserves_guru_log preserves_trace_loop]]
    by (auto simp: halt_stack_trace_def split: if_splits)
qed

lemma preserves_update_sink:
  "preserves (\<lambda>s'. Continue (s'\<lparr>syslog_open := False, events := events s' @ [Closed]\<rparr>))"
  by (simp add: preserves_def detector_def)

lemma preserves_close_syslog: "preserves (close_syslog b)"
proof (rule preservesI)
  fix s s'
  assume "final (close_syslog b s) = Some s'"
  then have "detector s' = detector (stack_trace b pf_close_syslog s)"
    unfolding close_syslog_def
    by (rule preservesD [OF preserves_seq [OF preserves_guru_log
          preserves_seq [OF preserves_guru_log
          preserves_seq [OF preserves_update_sink preserves_stack_trace_end]]]])
  then show "detector s' = detector s"
    by (simp add: detector_stack_trace)
qed

lemma preserves_curses_pass: "preserves (curses_pass b redraw)"
proof (rule preservesI)
  fix s s'
  have p: "preserves (\<lambda>s'. Continue (if redraw
                          then s'\<lparr>events := events s' @
                                 [Drawn ''Software Failure, Halting Execution'', Drawn (c_str (message s'))]\<rparr>
                          else s'))"
    by (simp add: preserves_def detector_def)
  have q: "preserves (if release b = R1_0 then guru_log b ''loop'' GURU_INFO [] else Continue)"
    by (simp add: preserves_guru_log preserves_Continue)
  assume "final (curses_pass b redraw s) = Some s'"
  then show "detector s' = detector s"
    unfolding curses_pass_def by (rule preservesD [OF preserves_seq [OF q p]])
qed

lemma detector_keys: "detector (s\<lparr>keys := ks\<rparr>) = detector s"
  by (simp add: detector_def)

lemma curses_loop_detector:
  "final (curses_loop b redraw ks s) = Some s' \<Longrightarrow> detector s' = detector s"
proof (induction ks arbitrary: redraw s)
  case Nil
  then show ?case
    using preservesD [OF preserves_curses_pass, of b redraw s]
    by (auto split: outcome.splits)
next
  case (Cons k ks)
  show ?case
  proof (cases "curses_pass b redraw s")
    case (Continue s1)
    then have d1: "detector s1 = detector s"
      using preservesD [OF preserves_curses_pass, of b redraw s s1] by simp
    show ?thesis
    proof (cases k)
      case KEY_RESIZE
      then show ?thesis
        using Cons.prems Continue Cons.IH [of True "s1\<lparr>keys := ks\<rparr>"] d1
        by (simp add: detector_keys)
    next
      case KEY_ESCAPE
      then have "final (close_syslog b (s1\<lparr>keys := ks\<rparr>)) = Some s'"
        using Cons.prems Continue by (auto split: outcome.splits)
      then have "detector s' = detector (s1\<lparr>keys := ks\<rparr>)"
        by (rule preservesD [OF preserves_close_syslog])
      then show ?thesis using d1 by (simp add: detector_keys)
    next
      case (KEY_OTHER c)
      then show ?thesis
        using Cons.prems Continue Cons.IH [of False "s1\<lparr>keys := ks\<rparr>"] d1
        by (simp add: detector_keys)
    qed
  next
    case (Exited c s1)
    then show ?thesis
      using Cons.prems preservesD [OF preserves_curses_pass, of b redraw s s'] by simp
  next
    case (Presenting s1)
    then show ?thesis
      using Cons.prems preservesD [OF preserves_curses_pass, of b redraw s s'] by simp
  next
    case Undefined
    then show ?thesis using Cons.prems by simp
  qed
qed

lemma preserves_halt_present: "preserves (halt_present b error)"
proof (rule preservesI)
  fix s s'
  assume a: "final (halt_present b error s) = Some s'"
  show "detector s' = detector s"
  proof (cases "using_curses b \<and> \<not> fully_active s")
    case True
    then show ?thesis using a by (simp add: halt_present_def)
  next
    case False
    note nf = False
    show ?thesis
    proof (cases "dead_already s")
      case True
      then have "final (guru_log b ''Detected cleanup in process, attempting to die peacefully.'' GURU_WARN [] s) = Some s'"
        using a nf by (auto simp: halt_present_def split: outcome.splits)
      then show ?thesis by (rule preservesD [OF preserves_guru_log])
    next
      case False
      show ?thesis
      proof (cases "using_console b")
        case True
        then show ?thesis
          using a nf False by (auto simp: halt_present_def Let_def detector_def split: option.splits)
      next
        case False
        note nc = False
        show ?thesis
        proof (cases "using_curses b")
          case True
          then show ?thesis
            using a nf nc \<open>\<not> dead_already s\<close>
            by (auto simp: halt_present_def Let_def detector_def split: if_splits
                     dest!: curses_loop_detector)
        next
          case False
          then show ?thesis
            using a nf nc \<open>\<not> dead_already s\<close>
            by (auto simp: halt_present_def Let_def detector_def split: if_splits)
        qed
      qed
    qed
  qed
qed

lemma halt_detector: "final (halt b error args s) = Some s' \<Longrightarrow> detector s' = detector s"
proof -
  assume a: "final (halt b error args s) = Some s'"
  then obtain err where e: "construct b error args = Some err"
    by (cases "construct b error args") (auto simp: halt_def)
  have "final (seq (guru_log b ''Software Failure, Halting Execution'' GURU_CRITICAL [])
         (seq (guru_log b err GURU_CRITICAL [])
         (seq (halt_stack_trace b)
         (seq (halt_present b err)
              (stack_trace_end b))))
            (stack_trace b (pf_halt b) (halt_entered error s))) = Some s'"
    using a e by (simp add: halt_def)
  then have "detector s' = detector (stack_trace b (pf_halt b) (halt_entered error s))"
    by (rule preservesD [OF preserves_seq [OF preserves_guru_log
          preserves_seq [OF preserves_guru_log
          preserves_seq [OF preserves_halt_stack_trace
          preserves_seq [OF preserves_halt_present preserves_stack_trace_end]]]]])
  then show ?thesis by (simp add: detector_stack_trace) (simp add: detector_def halt_entered_def)
qed

lemma preserves_halt: "preserves (halt b error args)"
  by (rule preservesI) (rule halt_detector)

lemma preserves_halt_exception: "preserves (halt_exception b what)"
proof (rule preservesI)
  fix s s'
  assume "final (halt_exception b what s) = Some s'"
  then have "detector s' = detector (stack_trace b pf_halt_exception s)"
    unfolding halt_exception_def
    by (rule preservesD [OF preserves_seq [OF preserves_halt preserves_stack_trace_end]])
  then show "detector s' = detector s" by (simp add: detector_stack_trace)
qed

lemma preserves_affirm: "preserves (affirm b condition error)"
proof (rule preservesI)
  fix s s'
  have p: "preserves (if condition = 0 then halt b error [] else Continue)"
    by (simp add: preserves_halt preserves_Continue)
  assume "final (affirm b condition error s) = Some s'"
  then have "detector s' = detector (stack_trace b pf_affirm s)"
    unfolding affirm_def
    by (rule preservesD [OF preserves_seq [OF p preserves_stack_trace_end]])
  then show "detector s' = detector s" by (simp add: detector_stack_trace)
qed

lemma intercept_signal_detector:
  assumes "final (intercept_signal b sig s) = Some s'"
  shows "detector s' = detector (signal_ignore SIGFPE (signal_ignore SIGILL
      (signal_ignore SIGSEGV (signal_ignore SIGABRT (stack_trace b pf_intercept_signal s)))))"
  using assms unfolding intercept_signal_def Let_def
  by (rule preservesD [OF preserves_seq [OF preserves_halt preserves_stack_trace_end]])

lemma intercept_signal_cascade:
  assumes "final (intercept_signal b sig s) = Some s'"
  shows "cascade_failure s' = cascade_failure s" and "dead_already s' = dead_already s"
  using intercept_signal_detector [OF assms]
  by (simp_all add: detector_def signal_ignore_def stack_trace_def)

lemma preserves_console_ready: "preserves (console_ready ready)"
  by (simp add: preserves_def console_ready_def detector_def)

subsection \<open>Entries into \<^verbatim>\<open>halt\<close>\<close>

text \<open>
  The messages \<^verbatim>\<open>halt\<close> has been entered with, oldest first. The log, the stack trace and
  the notice add none; each call of \<^verbatim>\<open>halt\<close> adds its own.
\<close>

definition halted :: "state \<Rightarrow> string list" where
  "halted s = [m. Halting m \<leftarrow> events s]"

definition silent :: "(state \<Rightarrow> outcome) \<Rightarrow> bool" where
  "silent f = (\<forall>s s'. final (f s) = Some s' \<longrightarrow> halted s' = halted s)"

lemma silentI: "(\<And>s s'. final (f s) = Some s' \<Longrightarrow> halted s' = halted s) \<Longrightarrow> silent f"
  by (simp add: silent_def)

lemma silentD: "silent f \<Longrightarrow> final (f s) = Some s' \<Longrightarrow> halted s' = halted s"
  by (simp add: silent_def)

lemma silent_Continue: "silent Continue"
  by (simp add: silent_def)

lemma silent_seq: "silent f \<Longrightarrow> silent g \<Longrightarrow> silent (seq f g)"
  unfolding silent_def seq_def
  by (auto split: outcome.splits)

lemma silent_guru_log: "silent (guru_log b msg type args)"
  by (auto simp: silent_def guru_log_def halted_def split: if_splits option.splits)

lemma halted_stack_trace: "halted (stack_trace b func s) = halted s"
  by (simp add: stack_trace_def halted_def)

lemma silent_stack_trace_end: "silent (stack_trace_end b)"
  by (auto simp: silent_def stack_trace_end_def halted_def split: if_splits)

lemma halted_guru_itos_scope: "halted (guru_itos_scope b s) = halted s"
  by (simp add: guru_itos_scope_def halted_def)

lemma silent_trace_loop: "silent (trace_loop b)"
proof (rule silentI)
  fix s s'
  show "final (trace_loop b s) = Some s' \<Longrightarrow> halted s' = halted s"
  proof (induction b s rule: trace_loop.induct)
    case (1 b s)
    show ?case
    proof (cases "funcs s")
      case Nil
      with "1.prems" show ?thesis by (simp add: trace_loop.simps)
    next
      case (Cons func rest)
      show ?thesis
      proof (cases "guru_log b (frame_label b (length (funcs s) - 1) @ '': '' @ func) GURU_STACK []
                      (guru_itos_scope b s)")
        case (Continue s1)
        have "final (guru_log b (frame_label b (length (funcs s) - 1) @ '': '' @ func) GURU_STACK []
                (guru_itos_scope b s)) = Some s1"
          using Continue by simp
        then have "halted s1 = halted (guru_itos_scope b s)"
          by (rule silentD [OF silent_guru_log])
        then have d1: "halted s1 = halted s"
          by (simp add: halted_guru_itos_scope)
        show ?thesis
        proof (cases "length (funcs s1) > 1")
          case True
          let ?s2 = "s1\<lparr>funcs := tl (funcs s1), events := events s1 @ [Popped]\<rparr>"
          have "final (trace_loop b ?s2) = Some s'"
            using "1.prems" Cons Continue True by (simp add: trace_loop.simps [of b s])
          then have "halted s' = halted ?s2"
            using "1.IH" [OF Cons Continue True] by simp
          then show ?thesis using d1 by (simp add: halted_def)
        next
          case False
          then have "s' = s1"
            using "1.prems" Cons Continue by (simp add: trace_loop.simps [of b s])
          then show ?thesis using d1 by simp
        qed
      next
        case (Exited c s1)
        then have "final (guru_log b (frame_label b (length (funcs s) - 1) @ '': '' @ func) GURU_STACK []
                     (guru_itos_scope b s)) = Some s'"
          using "1.prems" Cons by (simp add: trace_loop.simps [of b s])
        then have "halted s' = halted (guru_itos_scope b s)"
          by (rule silentD [OF silent_guru_log])
        then show ?thesis
          by (simp add: halted_guru_itos_scope)
      next
        case (Presenting s1)
        then have "final (guru_log b (frame_label b (length (funcs s) - 1) @ '': '' @ func) GURU_STACK []
                     (guru_itos_scope b s)) = Some s'"
          using "1.prems" Cons by (simp add: trace_loop.simps [of b s])
        then have "halted s' = halted (guru_itos_scope b s)"
          by (rule silentD [OF silent_guru_log])
        then show ?thesis
          by (simp add: halted_guru_itos_scope)
      next
        case Undefined
        then show ?thesis
          using "1.prems" Cons by (simp add: trace_loop.simps [of b s])
      qed
    qed
  qed
qed

lemma silent_halt_stack_trace: "silent (halt_stack_trace b)"
proof (rule silentI)
  fix s s'
  assume "final (halt_stack_trace b s) = Some s'"
  then show "halted s' = halted s"
    using silentD [OF silent_seq [OF silent_guru_log silent_trace_loop]]
    by (auto simp: halt_stack_trace_def split: if_splits)
qed

lemma silent_update_sink:
  "silent (\<lambda>s'. Continue (s'\<lparr>syslog_open := False, events := events s' @ [Closed]\<rparr>))"
  by (simp add: silent_def halted_def)

lemma silent_close_syslog: "silent (close_syslog b)"
proof (rule silentI)
  fix s s'
  assume "final (close_syslog b s) = Some s'"
  then have "halted s' = halted (stack_trace b pf_close_syslog s)"
    unfolding close_syslog_def
    by (rule silentD [OF silent_seq [OF silent_guru_log
          silent_seq [OF silent_guru_log
          silent_seq [OF silent_update_sink silent_stack_trace_end]]]])
  then show "halted s' = halted s"
    by (simp add: halted_stack_trace)
qed

lemma silent_curses_pass: "silent (curses_pass b redraw)"
proof (rule silentI)
  fix s s'
  have p: "silent (\<lambda>s'. Continue (if redraw
                          then s'\<lparr>events := events s' @
                                 [Drawn ''Software Failure, Halting Execution'', Drawn (c_str (message s'))]\<rparr>
                          else s'))"
    by (simp add: silent_def halted_def)
  have q: "silent (if release b = R1_0 then guru_log b ''loop'' GURU_INFO [] else Continue)"
    by (simp add: silent_guru_log silent_Continue)
  assume "final (curses_pass b redraw s) = Some s'"
  then show "halted s' = halted s"
    unfolding curses_pass_def by (rule silentD [OF silent_seq [OF q p]])
qed

lemma halted_keys: "halted (s\<lparr>keys := ks\<rparr>) = halted s"
  by (simp add: halted_def)

lemma curses_loop_halted:
  "final (curses_loop b redraw ks s) = Some s' \<Longrightarrow> halted s' = halted s"
proof (induction ks arbitrary: redraw s)
  case Nil
  then show ?case
    using silentD [OF silent_curses_pass, of b redraw s]
    by (auto split: outcome.splits)
next
  case (Cons k ks)
  show ?case
  proof (cases "curses_pass b redraw s")
    case (Continue s1)
    then have d1: "halted s1 = halted s"
      using silentD [OF silent_curses_pass, of b redraw s s1] by simp
    show ?thesis
    proof (cases k)
      case KEY_RESIZE
      then show ?thesis
        using Cons.prems Continue Cons.IH [of True "s1\<lparr>keys := ks\<rparr>"] d1
        by (simp add: halted_keys)
    next
      case KEY_ESCAPE
      then have "final (close_syslog b (s1\<lparr>keys := ks\<rparr>)) = Some s'"
        using Cons.prems Continue by (auto split: outcome.splits)
      then have "halted s' = halted (s1\<lparr>keys := ks\<rparr>)"
        by (rule silentD [OF silent_close_syslog])
      then show ?thesis using d1 by (simp add: halted_keys)
    next
      case (KEY_OTHER c)
      then show ?thesis
        using Cons.prems Continue Cons.IH [of False "s1\<lparr>keys := ks\<rparr>"] d1
        by (simp add: halted_keys)
    qed
  next
    case (Exited c s1)
    then show ?thesis
      using Cons.prems silentD [OF silent_curses_pass, of b redraw s s'] by simp
  next
    case (Presenting s1)
    then show ?thesis
      using Cons.prems silentD [OF silent_curses_pass, of b redraw s s'] by simp
  next
    case Undefined
    then show ?thesis using Cons.prems by simp
  qed
qed

lemma silent_halt_present: "silent (halt_present b error)"
proof (rule silentI)
  fix s s'
  assume a: "final (halt_present b error s) = Some s'"
  show "halted s' = halted s"
  proof (cases "using_curses b \<and> \<not> fully_active s")
    case True
    then show ?thesis using a by (simp add: halt_present_def)
  next
    case False
    note nf = False
    show ?thesis
    proof (cases "dead_already s")
      case True
      then have "final (guru_log b ''Detected cleanup in process, attempting to die peacefully.'' GURU_WARN [] s) = Some s'"
        using a nf by (auto simp: halt_present_def split: outcome.splits)
      then show ?thesis by (rule silentD [OF silent_guru_log])
    next
      case False
      show ?thesis
      proof (cases "using_console b")
        case True
        then show ?thesis
          using a nf False by (auto simp: halt_present_def Let_def halted_def split: option.splits)
      next
        case False
        note nc = False
        show ?thesis
        proof (cases "using_curses b")
          case True
          then show ?thesis
            using a nf nc \<open>\<not> dead_already s\<close>
            by (auto simp: halt_present_def Let_def halted_def split: if_splits
                     dest!: curses_loop_halted)
        next
          case False
          then show ?thesis
            using a nf nc \<open>\<not> dead_already s\<close>
            by (auto simp: halt_present_def Let_def halted_def split: if_splits)
        qed
      qed
    qed
  qed
qed

lemma halted_halt_entered: "halted (halt_entered error s) = halted s @ [error]"
  by (simp add: halt_entered_def halted_def)

lemma halt_halted: "final (halt b error args s) = Some s' \<Longrightarrow> halted s' = halted s @ [error]"
proof -
  assume a: "final (halt b error args s) = Some s'"
  then obtain err where e: "construct b error args = Some err"
    by (cases "construct b error args") (auto simp: halt_def)
  have "final (seq (guru_log b ''Software Failure, Halting Execution'' GURU_CRITICAL [])
         (seq (guru_log b err GURU_CRITICAL [])
         (seq (halt_stack_trace b)
         (seq (halt_present b err)
              (stack_trace_end b))))
            (stack_trace b (pf_halt b) (halt_entered error s))) = Some s'"
    using a e by (simp add: halt_def)
  then have "halted s' = halted (stack_trace b (pf_halt b) (halt_entered error s))"
    by (rule silentD [OF silent_seq [OF silent_guru_log
          silent_seq [OF silent_guru_log
          silent_seq [OF silent_halt_stack_trace
          silent_seq [OF silent_halt_present silent_stack_trace_end]]]]])
  then show ?thesis by (simp add: halted_stack_trace halted_halt_entered)
qed

subsection \<open>Unfolding \<^verbatim>\<open>nonfatal\<close>\<close>

lemma nonfatal_tripped: "cascade_failure s \<Longrightarrow> nonfatal b error type args s = Continue s"
  by (simp add: nonfatal.simps)

lemma nonfatal_undefined:
  "\<not> cascade_failure s \<Longrightarrow> construct b error args = None \<Longrightarrow>
   nonfatal b error type args s = Undefined"
  by (simp add: nonfatal.simps)

lemma nonfatal_weighted:
  assumes "type = GURU_WARN \<or> type = GURU_ERROR \<or> type = GURU_CRITICAL"
    and "\<not> cascade_failure s"
    and "construct b error args = Some err"
  shows "nonfatal b error type args s =
         seq (guru_log b err type [])
        (seq (nonfatal_cascade b (cascade_weight type))
             (stack_trace_end b)) (stack_trace b (pf_nonfatal b) s)"
  using assms by (subst nonfatal.simps) auto

lemma nonfatal_cascade_zero: "nonfatal_cascade b 0 = Continue"
  by (rule ext) (simp add: nonfatal_cascade_def)

lemma seq_Continue_left: "seq Continue g = g"
  by (rule ext) (simp add: seq_def)

lemma nonfatal_unweighted:
  assumes "type \<noteq> GURU_WARN" "type \<noteq> GURU_ERROR" "type \<noteq> GURU_CRITICAL"
    and "\<not> cascade_failure s"
    and "construct b error args = Some err"
  shows "nonfatal b error type args s =
         seq (nonfatal b ''Nonfatal error reported with incorrect severity specified.'' GURU_WARN [])
        (seq (guru_log b err type [])
             (stack_trace_end b)) (stack_trace b (pf_nonfatal b) s)"
proof -
  have "cascade_weight type = 0"
    using assms by (simp add: cascade_weight_def)
  then show ?thesis
    using assms
    by (subst nonfatal.simps)
       (simp add: nonfatal_cascade_zero seq_Continue_left seq_def cong: outcome.case_cong)
qed

subsection \<open>What a non-fatal report can change\<close>

definition grows :: "state \<Rightarrow> state \<Rightarrow> bool" where
  "grows s s' =
     (dead_already s' = dead_already s \<and> clock s' = clock s \<and> utc_offset s' = utc_offset s \<and>
      (cascade_failure s' \<or> \<not> cascade_failure s) \<and>
      (cascade_timer s' = cascade_timer s \<or> cascade_timer s' = clock s))"

definition monotone :: "(state \<Rightarrow> outcome) \<Rightarrow> bool" where
  "monotone f = (\<forall>s s'. final (f s) = Some s' \<longrightarrow> grows s s')"

lemma monotoneD: "monotone f \<Longrightarrow> final (f s) = Some s' \<Longrightarrow> grows s s'"
  by (simp add: monotone_def)

lemma grows_refl: "grows s s"
  by (simp add: grows_def)

lemma grows_trans: "grows s s' \<Longrightarrow> grows s' s'' \<Longrightarrow> grows s s''"
  by (auto simp: grows_def)

lemma detector_grows: "detector s' = detector s \<Longrightarrow> grows s s'"
  by (simp add: detector_def grows_def)

lemma preserves_monotone: "preserves f \<Longrightarrow> monotone f"
  by (auto simp: monotone_def dest: preservesD detector_grows)

lemma monotone_seq: "monotone f \<Longrightarrow> monotone g \<Longrightarrow> monotone (seq f g)"
  unfolding monotone_def seq_def
  by (auto split: outcome.splits) (metis final.simps(1) grows_trans)

lemma monotone_nonfatal_cascade: "monotone (nonfatal_cascade b weight)"
  unfolding monotone_def
proof (intro allI impI)
  fix s s'
  assume a: "final (nonfatal_cascade b weight s) = Some s'"
  show "grows s s'"
  proof (cases "weight \<noteq> 0 \<and> elapsed_seconds s \<le> CASCADE_TIMEOUT \<and>
                cascade_count s + weight > CASCADE_THRESHOLD")
    case True
    then have "final (halt b ''Cascade failure detected!'' []
        (s\<lparr>cascade_count := cascade_count s + weight, cascade_failure := True\<rparr>)) = Some s'"
      using a by (simp add: nonfatal_cascade_def Let_def)
    then have "detector s' =
        detector (s\<lparr>cascade_count := cascade_count s + weight, cascade_failure := True\<rparr>)"
      by (rule halt_detector)
    then show ?thesis by (simp add: detector_def grows_def)
  next
    case False
    then show ?thesis
      using a by (auto simp: nonfatal_cascade_def Let_def grows_def split: if_splits)
  qed
qed

lemma grows_stack_trace: "grows s (stack_trace b func s)"
  by (simp add: grows_def stack_trace_def)

lemma monotone_nonfatal_weighted:
  assumes "type = GURU_WARN \<or> type = GURU_ERROR \<or> type = GURU_CRITICAL"
  shows "monotone (nonfatal b error type args)"
  unfolding monotone_def
proof (intro allI impI)
  fix s s'
  assume a: "final (nonfatal b error type args s) = Some s'"
  show "grows s s'"
  proof (cases "cascade_failure s")
    case True
    then show ?thesis using a by (simp add: nonfatal_tripped grows_refl)
  next
    case False
    then obtain err where e: "construct b error args = Some err"
      using a by (cases "construct b error args") (auto simp: nonfatal_undefined)
    have "grows (stack_trace b (pf_nonfatal b) s) s'"
      using a unfolding nonfatal_weighted [OF assms False e]
      by (rule monotoneD [OF monotone_seq [OF preserves_monotone [OF preserves_guru_log]
            monotone_seq [OF monotone_nonfatal_cascade
              preserves_monotone [OF preserves_stack_trace_end]]]])
    then show ?thesis by (rule grows_trans [OF grows_stack_trace])
  qed
qed

lemma monotone_nonfatal: "monotone (nonfatal b error type args)"
proof (cases "type = GURU_WARN \<or> type = GURU_ERROR \<or> type = GURU_CRITICAL")
  case True
  then show ?thesis by (rule monotone_nonfatal_weighted)
next
  case False
  show ?thesis
    unfolding monotone_def
  proof (intro allI impI)
    fix s s'
    assume a: "final (nonfatal b error type args s) = Some s'"
    show "grows s s'"
    proof (cases "cascade_failure s")
      case True
      then show ?thesis using a by (simp add: nonfatal_tripped grows_refl)
    next
      case nt: False
      then obtain err where e: "construct b error args = Some err"
        using a by (cases "construct b error args") (auto simp: nonfatal_undefined)
      have t: "type \<noteq> GURU_WARN" "type \<noteq> GURU_ERROR" "type \<noteq> GURU_CRITICAL"
        using False by auto
      have w: "monotone (nonfatal b ''Nonfatal error reported with incorrect severity specified.''
                  GURU_WARN [])"
        by (rule monotone_nonfatal_weighted) simp
      have "grows (stack_trace b (pf_nonfatal b) s) s'"
        using a unfolding nonfatal_unweighted [OF t nt e]
        by (rule monotoneD [OF monotone_seq [OF w
              monotone_seq [OF preserves_monotone [OF preserves_guru_log]
                preserves_monotone [OF preserves_stack_trace_end]]]])
      then show ?thesis by (rule grows_trans [OF grows_stack_trace])
    qed
  qed
qed

subsection \<open>Programs that call the interface\<close>

text \<open>
  The calls an application (or the operating system, for a signal) makes, and time that
  goes by between them, in nanoseconds. A list of calls runs until one of them does not
  return.
\<close>

datatype call =
    Log string int "fmt_arg list"
  | Nonfatal string int "fmt_arg list"
  | Halt string "fmt_arg list"
  | HaltException string
  | Affirm int string
  | InterceptSignal signal
  | CloseSyslog
  | ConsoleReady bool
  | Elapse int

fun exec :: "build \<Rightarrow> call \<Rightarrow> state \<Rightarrow> outcome" where
  "exec b (Log msg type args) s = guru_log b msg type args s"
| "exec b (Nonfatal error type args) s = nonfatal b error type args s"
| "exec b (Halt error args) s = halt b error args s"
| "exec b (HaltException what) s = halt_exception b what s"
| "exec b (Affirm condition error) s = affirm b condition error s"
| "exec b (InterceptSignal sig) s = intercept_signal b sig s"
| "exec b CloseSyslog s = close_syslog b s"
| "exec b (ConsoleReady ready) s = console_ready ready s"
| "exec b (Elapse d) s = Continue (s\<lparr>clock := clock s + d\<rparr>)"

fun run :: "build \<Rightarrow> call list \<Rightarrow> state \<Rightarrow> outcome" where
  "run b [] s = Continue s"
| "run b (c # cs) s = (case exec b c s of Continue s' \<Rightarrow> run b cs s' | out \<Rightarrow> out)"

lemma exec_tripped:
  assumes "cascade_failure s" and "final (exec b c s) = Some s'"
  shows "cascade_failure s'"
proof (cases c)
  case (Log msg type args)
  then show ?thesis
    using assms preservesD [OF preserves_guru_log, of b msg type args s s']
    by (simp add: detector_def)
next
  case (Nonfatal error type args)
  then show ?thesis
    using assms by (simp add: nonfatal_tripped)
next
  case (Halt error args)
  then show ?thesis
    using assms halt_detector [of b error args s s'] by (simp add: detector_def)
next
  case (HaltException what)
  then show ?thesis
    using assms preservesD [OF preserves_halt_exception, of b what s s']
    by (simp add: detector_def)
next
  case (Affirm condition error)
  then show ?thesis
    using assms preservesD [OF preserves_affirm, of b condition error s s']
    by (simp add: detector_def)
next
  case (InterceptSignal sig)
  then show ?thesis
    using assms intercept_signal_cascade [of b sig s s'] by simp
next
  case CloseSyslog
  then show ?thesis
    using assms preservesD [OF preserves_close_syslog, of b s s']
    by (simp add: detector_def)
next
  case (ConsoleReady ready)
  then show ?thesis
    using assms by (auto simp: console_ready_def)
next
  case (Elapse d)
  then show ?thesis
    using assms by auto
qed

lemma run_tripped:
  "cascade_failure s \<Longrightarrow> final (run b cs s) = Some s' \<Longrightarrow> cascade_failure s'"
proof (induction cs arbitrary: s)
  case Nil
  then show ?case by simp
next
  case (Cons c cs)
  show ?case
  proof (cases "exec b c s")
    case (Continue s1)
    then have "cascade_failure s1"
      using exec_tripped [OF Cons.prems(1), of b c s1] by simp
    then show ?thesis
      using Cons.IH [of s1] Cons.prems(2) Continue by simp
  next
    case (Exited n s1)
    then show ?thesis
      using exec_tripped [OF Cons.prems(1), of b c s'] Cons.prems(2) by simp
  next
    case (Presenting s1)
    then show ?thesis
      using exec_tripped [OF Cons.prems(1), of b c s'] Cons.prems(2) by simp
  next
    case Undefined
    then show ?thesis using Cons.prems(2) by simp
  qed
qed

subsection \<open>Non-fatal reports that enter \<^verbatim>\<open>halt\<close>\<close>

text \<open>
  A computation is \<open>declaring\<close> when, started with \<^verbatim>\<open>cascade_failure\<close> false, it enters
  \<^verbatim>\<open>halt\<close> only to declare a cascade: not at all if it leaves the flag false, and once,
  with the cascade message, if it leaves the flag true.
\<close>

definition declaring :: "(state \<Rightarrow> outcome) \<Rightarrow> bool" where
  "declaring f =
     (\<forall>s s'. \<not> cascade_failure s \<longrightarrow> final (f s) = Some s' \<longrightarrow>
        halted s' = halted s @
          (if cascade_failure s' then [''Cascade failure detected!''] else []))"

lemma declaringD:
  "declaring f \<Longrightarrow> \<not> cascade_failure s \<Longrightarrow> final (f s) = Some s' \<Longrightarrow>
   halted s' = halted s @ (if cascade_failure s' then [''Cascade failure detected!''] else [])"
  by (simp add: declaring_def)

lemma declaring_quiet: "preserves f \<Longrightarrow> silent f \<Longrightarrow> declaring f"
  unfolding declaring_def
proof (intro allI impI)
  fix s s'
  assume p: "preserves f" and q: "silent f" and nt: "\<not> cascade_failure s"
    and f: "final (f s) = Some s'"
  have "detector s' = detector s" using p f by (rule preservesD)
  then have "\<not> cascade_failure s'" using nt by (simp add: detector_def)
  moreover have "halted s' = halted s" using q f by (rule silentD)
  ultimately show "halted s' = halted s @
      (if cascade_failure s' then [''Cascade failure detected!''] else [])"
    by simp
qed

lemma declaring_seq_left:
  assumes p: "preserves f" and q: "silent f" and g: "declaring g"
  shows "declaring (seq f g)"
  unfolding declaring_def
proof (intro allI impI)
  fix s s'
  assume nt: "\<not> cascade_failure s" and fin: "final (seq f g s) = Some s'"
  show "halted s' = halted s @ (if cascade_failure s' then [''Cascade failure detected!''] else [])"
  proof (cases "f s")
    case (Continue s1)
    then have f1: "final (f s) = Some s1" by simp
    have "detector s1 = detector s" using p f1 by (rule preservesD)
    then have nt1: "\<not> cascade_failure s1" using nt by (simp add: detector_def)
    have h1: "halted s1 = halted s" using q f1 by (rule silentD)
    have "final (g s1) = Some s'" using fin Continue by (simp add: seq_def)
    then show ?thesis using declaringD [OF g nt1] h1 by simp
  next
    case (Exited c s1)
    then have "final (f s) = Some s'" using fin by (simp add: seq_def)
    then show ?thesis using declaringD [OF declaring_quiet [OF p q] nt] by simp
  next
    case (Presenting s1)
    then have "final (f s) = Some s'" using fin by (simp add: seq_def)
    then show ?thesis using declaringD [OF declaring_quiet [OF p q] nt] by simp
  next
    case Undefined
    then show ?thesis using fin by (simp add: seq_def)
  qed
qed

lemma declaring_seq_right:
  assumes f: "declaring f" and p: "preserves g" and q: "silent g"
  shows "declaring (seq f g)"
  unfolding declaring_def
proof (intro allI impI)
  fix s s'
  assume nt: "\<not> cascade_failure s" and fin: "final (seq f g s) = Some s'"
  show "halted s' = halted s @ (if cascade_failure s' then [''Cascade failure detected!''] else [])"
  proof (cases "f s")
    case (Continue s1)
    then have f1: "final (f s) = Some s1" by simp
    have h1: "halted s1 = halted s @
        (if cascade_failure s1 then [''Cascade failure detected!''] else [])"
      using f nt f1 by (rule declaringD)
    have g1: "final (g s1) = Some s'" using fin Continue by (simp add: seq_def)
    have "detector s' = detector s1" using p g1 by (rule preservesD)
    then have "cascade_failure s' = cascade_failure s1" by (simp add: detector_def)
    moreover have "halted s' = halted s1" using q g1 by (rule silentD)
    ultimately show ?thesis using h1 by simp
  next
    case (Exited c s1)
    then have "final (f s) = Some s'" using fin by (simp add: seq_def)
    then show ?thesis using declaringD [OF f nt] by simp
  next
    case (Presenting s1)
    then have "final (f s) = Some s'" using fin by (simp add: seq_def)
    then show ?thesis using declaringD [OF f nt] by simp
  next
    case Undefined
    then show ?thesis using fin by (simp add: seq_def)
  qed
qed

lemma declaring_nonfatal_cascade: "declaring (nonfatal_cascade b weight)"
  unfolding declaring_def
proof (intro allI impI)
  fix s s'
  assume nt: "\<not> cascade_failure s" and a: "final (nonfatal_cascade b weight s) = Some s'"
  show "halted s' = halted s @ (if cascade_failure s' then [''Cascade failure detected!''] else [])"
  proof (cases "weight \<noteq> 0 \<and> elapsed_seconds s \<le> CASCADE_TIMEOUT \<and>
                cascade_count s + weight > CASCADE_THRESHOLD")
    case True
    let ?s1 = "s\<lparr>cascade_count := cascade_count s + weight, cascade_failure := True\<rparr>"
    have f: "final (halt b ''Cascade failure detected!'' [] ?s1) = Some s'"
      using a True by (simp add: nonfatal_cascade_def Let_def)
    have "halted s' = halted ?s1 @ [''Cascade failure detected!'']"
      using f by (rule halt_halted)
    moreover have "detector s' = detector ?s1" using f by (rule halt_detector)
    ultimately show ?thesis by (simp add: detector_def halted_def)
  next
    case False
    then show ?thesis
      using a nt by (auto simp: nonfatal_cascade_def Let_def halted_def split: if_splits)
  qed
qed

lemma declaring_nonfatal_weighted:
  assumes "type = GURU_WARN \<or> type = GURU_ERROR \<or> type = GURU_CRITICAL"
  shows "declaring (nonfatal b error type args)"
  unfolding declaring_def
proof (intro allI impI)
  fix s s'
  assume nt: "\<not> cascade_failure s" and a: "final (nonfatal b error type args s) = Some s'"
  obtain err where e: "construct b error args = Some err"
    using a nt by (cases "construct b error args") (auto simp: nonfatal_undefined)
  let ?s0 = "stack_trace b (pf_nonfatal b) s"
  have nt0: "\<not> cascade_failure ?s0" using nt by (simp add: stack_trace_def)
  have "halted s' = halted ?s0 @
      (if cascade_failure s' then [''Cascade failure detected!''] else [])"
    using nt0 a unfolding nonfatal_weighted [OF assms nt e]
    by (rule declaringD [OF declaring_seq_left [OF preserves_guru_log silent_guru_log
          declaring_seq_right [OF declaring_nonfatal_cascade
            preserves_stack_trace_end silent_stack_trace_end]]])
  then show "halted s' = halted s @
      (if cascade_failure s' then [''Cascade failure detected!''] else [])"
    by (simp add: halted_stack_trace)
qed

lemma declaring_nonfatal: "declaring (nonfatal b error type args)"
proof (cases "type = GURU_WARN \<or> type = GURU_ERROR \<or> type = GURU_CRITICAL")
  case True
  then show ?thesis by (rule declaring_nonfatal_weighted)
next
  case False
  show ?thesis
    unfolding declaring_def
  proof (intro allI impI)
    fix s s'
    assume nt: "\<not> cascade_failure s" and a: "final (nonfatal b error type args s) = Some s'"
    obtain err where e: "construct b error args = Some err"
      using a nt by (cases "construct b error args") (auto simp: nonfatal_undefined)
    have t: "type \<noteq> GURU_WARN" "type \<noteq> GURU_ERROR" "type \<noteq> GURU_CRITICAL"
      using False by auto
    let ?s0 = "stack_trace b (pf_nonfatal b) s"
    have nt0: "\<not> cascade_failure ?s0" using nt by (simp add: stack_trace_def)
    have w: "declaring (nonfatal b ''Nonfatal error reported with incorrect severity specified.''
                GURU_WARN [])"
      by (rule declaring_nonfatal_weighted) simp
    have "halted s' = halted ?s0 @
        (if cascade_failure s' then [''Cascade failure detected!''] else [])"
      using nt0 a unfolding nonfatal_unweighted [OF t nt e]
      by (rule declaringD [OF declaring_seq_right [OF w
            preserves_seq [OF preserves_guru_log preserves_stack_trace_end]
            silent_seq [OF silent_guru_log silent_stack_trace_end]]])
    then show "halted s' = halted s @
        (if cascade_failure s' then [''Cascade failure detected!''] else [])"
      by (simp add: halted_stack_trace)
  qed
qed

text \<open>Every non-fatal report, whatever the flag: it enters \<^verbatim>\<open>halt\<close> exactly when it sets the flag.\<close>

lemma nonfatal_halted:
  assumes "final (nonfatal b error type args s) = Some s'"
  shows "halted s' = halted s @
           (if cascade_failure s' \<and> \<not> cascade_failure s then [''Cascade failure detected!''] else [])"
proof (cases "cascade_failure s")
  case True
  then show ?thesis using assms by (simp add: nonfatal_tripped)
next
  case False
  then show ?thesis using declaringD [OF declaring_nonfatal False assms] by simp
qed

text \<open>
  The number of times the non-fatal reports of a run enter \<^verbatim>\<open>halt\<close>: for each call of
  \<^verbatim>\<open>nonfatal\<close>, the entries it adds to the record.
\<close>

definition report_halts :: "build \<Rightarrow> call \<Rightarrow> state \<Rightarrow> nat" where
  "report_halts b c s =
     (case c of
        Nonfatal error type args \<Rightarrow>
          (case final (exec b c s) of
             None \<Rightarrow> 0
           | Some s' \<Rightarrow> length (halted s') - length (halted s))
      | _ \<Rightarrow> 0)"

fun cascade_halts :: "build \<Rightarrow> call list \<Rightarrow> state \<Rightarrow> nat" where
  "cascade_halts b [] s = 0"
| "cascade_halts b (c # cs) s =
     report_halts b c s +
     (case exec b c s of Continue s' \<Rightarrow> cascade_halts b cs s' | out \<Rightarrow> 0)"

lemma report_halts_tripped: "cascade_failure s \<Longrightarrow> report_halts b c s = 0"
  by (cases c) (simp_all add: report_halts_def nonfatal_tripped)

lemma report_halts_le: "report_halts b c s \<le> Suc 0"
proof (cases c)
  case (Nonfatal error type args)
  show ?thesis
  proof (cases "final (nonfatal b error type args s)")
    case None
    then show ?thesis using Nonfatal by (simp add: report_halts_def)
  next
    case (Some s')
    then show ?thesis
      using Nonfatal nonfatal_halted [OF Some] by (simp add: report_halts_def)
  qed
qed (simp_all add: report_halts_def)

lemma report_halts_then_tripped:
  assumes "report_halts b c s = Suc 0" and "exec b c s = Continue s'"
  shows "cascade_failure s'"
proof (cases c)
  case (Nonfatal error type args)
  have f: "final (nonfatal b error type args s) = Some s'"
    using assms(2) Nonfatal by simp
  show ?thesis
    using assms(1) Nonfatal f nonfatal_halted [OF f]
    by (simp add: report_halts_def split: if_splits)
qed (use assms in \<open>simp_all add: report_halts_def\<close>)

lemma cascade_halts_tripped: "cascade_failure s \<Longrightarrow> cascade_halts b cs s = 0"
proof (induction cs arbitrary: s)
  case Nil
  then show ?case by simp
next
  case (Cons c cs)
  show ?case
  proof (cases "exec b c s")
    case (Continue s1)
    then have "cascade_failure s1"
      using exec_tripped [OF Cons.prems, of b c s1] by simp
    then show ?thesis
      using Cons.IH [of s1] Continue Cons.prems by (simp add: report_halts_tripped)
  qed (simp_all add: report_halts_tripped Cons.prems)
qed

lemma cascade_halts_le: "cascade_halts b cs s \<le> 1"
proof (induction cs arbitrary: s)
  case Nil
  then show ?case by simp
next
  case (Cons c cs)
  show ?case
  proof (cases "exec b c s")
    case (Continue s1)
    show ?thesis
    proof (cases "report_halts b c s = Suc 0")
      case True
      then have "cascade_halts b cs s1 = 0"
        using Continue by (intro cascade_halts_tripped report_halts_then_tripped)
      then show ?thesis using Continue True by simp
    next
      case False
      then have "report_halts b c s = 0"
        using report_halts_le [of b c s] by linarith
      then show ?thesis using Continue Cons.IH [of s1] by simp
    qed
  qed (use report_halts_le [of b c s] in simp_all)
qed

text \<open>
  C4. Once \<^verbatim>\<open>cascade_failure\<close> is true, \<^verbatim>\<open>nonfatal\<close> returns at once and leaves the whole
  state (log, stack and detector included) as it was, and no call of the interface and no
  lapse of time makes the flag false again. A non-fatal report enters \<^verbatim>\<open>halt\<close> exactly
  when it finds the flag false and leaves it true: once, with the cascade message. So the
  non-fatal reports of any run of calls enter \<^verbatim>\<open>halt\<close> at most once, and not at all once
  the flag is set.
\<close>

theorem cascade_permanent:
  "cascade_halts b cs s0 \<le> 1 \<and>
   (\<forall>s'. final (nonfatal b error type args s) = Some s' \<longrightarrow>
      halted s' = halted s @
        (if cascade_failure s' \<and> \<not> cascade_failure s
         then [''Cascade failure detected!''] else [])) \<and>
   (cascade_failure s \<longrightarrow>
      nonfatal b error type args s = Continue s \<and>
      (\<forall>s'. final (run b cs s) = Some s' \<longrightarrow> cascade_failure s') \<and>
      cascade_halts b cs s = 0)"
proof (intro conjI allI impI)
  show "cascade_halts b cs s0 \<le> 1" by (rule cascade_halts_le)
  show "halted s' = halted s @
        (if cascade_failure s' \<and> \<not> cascade_failure s
         then [''Cascade failure detected!''] else [])"
    if "final (nonfatal b error type args s) = Some s'" for s'
    using that by (rule nonfatal_halted)
  show "nonfatal b error type args s = Continue s" if "cascade_failure s"
    using that by (rule nonfatal_tripped)
  show "cascade_failure s'" if "cascade_failure s" "final (run b cs s) = Some s'" for s'
    using that by (rule run_tripped)
  show "cascade_halts b cs s = 0" if "cascade_failure s"
    using that by (rule cascade_halts_tripped)
qed

subsection \<open>Example builds and states\<close>

text \<open>
  The builds of the two releases with their headers as shipped (no switch defined), a
  console build, a Curses build, and a build with the stack trace.
\<close>

definition shipped_1_3 :: build where
  "shipped_1_3 = \<lparr>release = R1_3, using_console = False, using_curses = False, using_stack_trace = False\<rparr>"

definition shipped_1_0 :: build where
  "shipped_1_0 = \<lparr>release = R1_0, using_console = False, using_curses = False, using_stack_trace = False\<rparr>"

definition console_1_3 :: build where
  "console_1_3 = \<lparr>release = R1_3, using_console = True, using_curses = False, using_stack_trace = False\<rparr>"

definition curses_1_3 :: build where
  "curses_1_3 = \<lparr>release = R1_3, using_console = False, using_curses = True, using_stack_trace = False\<rparr>"

definition traced_1_3 :: build where
  "traced_1_3 = \<lparr>release = R1_3, using_console = False, using_curses = False, using_stack_trace = True\<rparr>"

text \<open>
  The state \<^verbatim>\<open>open_syslog\<close> leaves behind at time \<open>t\<close> when the file opens and the four
  handlers are hooked: the first line is in the log, the cascade timer is started.
\<close>

definition started :: "int \<Rightarrow> state" where
  "started t =
     (initial t)\<lparr>cascade_timer := t,
       last_log_message := ''Guru error-handling system is online. Hooking signals...'',
       syslog_open := True,
       syslog_file := [log_line (initial t) GURU_INFO
                         ''Guru error-handling system is online. Hooking signals...''],
       handlers := [(SIGABRT, Handler), (SIGSEGV, Handler), (SIGILL, Handler), (SIGFPE, Handler)],
       events := [Wrote (log_line (initial t) GURU_INFO
                         ''Guru error-handling system is online. Hooking signals...''),
                  Signalled SIGABRT Handler, Signalled SIGSEGV Handler,
                  Signalled SIGILL Handler, Signalled SIGFPE Handler]\<rparr>"

subsection \<open>The flag \<^verbatim>\<open>dead_already\<close>\<close>

lemma exec_dead_already:
  assumes "final (exec b c s) = Some s'"
  shows "dead_already s' = dead_already s"
proof (cases c)
  case (Log msg type args)
  then show ?thesis
    using assms preservesD [OF preserves_guru_log, of b msg type args s s']
    by (simp add: detector_def)
next
  case (Nonfatal error type args)
  then show ?thesis
    using assms monotoneD [OF monotone_nonfatal, of b error type args s s']
    by (simp add: grows_def)
next
  case (Halt error args)
  then show ?thesis
    using assms halt_detector [of b error args s s'] by (simp add: detector_def)
next
  case (HaltException what)
  then show ?thesis
    using assms preservesD [OF preserves_halt_exception, of b what s s']
    by (simp add: detector_def)
next
  case (Affirm condition error)
  then show ?thesis
    using assms preservesD [OF preserves_affirm, of b condition error s s']
    by (simp add: detector_def)
next
  case (InterceptSignal sig)
  then show ?thesis
    using assms intercept_signal_cascade [of b sig s s'] by simp
next
  case CloseSyslog
  then show ?thesis
    using assms preservesD [OF preserves_close_syslog, of b s s']
    by (simp add: detector_def)
next
  case (ConsoleReady ready)
  then show ?thesis
    using assms by (auto simp: console_ready_def)
next
  case (Elapse d)
  then show ?thesis
    using assms by auto
qed

text \<open>No call of the interface assigns \<^verbatim>\<open>dead_already\<close>: it keeps its initial value.\<close>

lemma run_dead_already:
  "final (run b cs s) = Some s' \<Longrightarrow> dead_already s' = dead_already s"
proof (induction cs arbitrary: s)
  case Nil
  then show ?case by simp
next
  case (Cons c cs)
  show ?case
  proof (cases "exec b c s")
    case (Continue s1)
    then have "dead_already s1 = dead_already s"
      using exec_dead_already [of b c s s1] by simp
    then show ?thesis
      using Cons.IH [of s1] Cons.prems Continue by simp
  next
    case (Exited n s1)
    then show ?thesis
      using exec_dead_already [of b c s s'] Cons.prems by simp
  next
    case (Presenting s1)
    then show ?thesis
      using exec_dead_already [of b c s s'] Cons.prems by simp
  next
    case Undefined
    then show ?thesis using Cons.prems by simp
  qed
qed

text \<open>
  C1. \<^verbatim>\<open>halt\<close> tests \<^verbatim>\<open>dead_already\<close> but nothing ever sets it. In a Curses build that
  is ready to draw, a first \<^verbatim>\<open>halt\<close> draws its notice and waits for a key with the flag
  still false. A segmentation fault arriving then reaches \<^verbatim>\<open>halt\<close> again through the
  signal handler, and this second \<^verbatim>\<open>halt\<close> does not take the ``die peacefully'' exit: it
  logs its own banner and message, draws a second notice and waits again.
\<close>

theorem second_halt_presents_again:
  "(case run curses_1_3 [ConsoleReady True, Halt ''first'' []] (started 0) of
      Presenting s1 \<Rightarrow>
        \<not> dead_already s1 \<and>
        (case exec curses_1_3 (InterceptSignal SIGSEGV) s1 of
           Presenting s2 \<Rightarrow>
             \<not> dead_already s2 \<and>
             [m. Drawn m \<leftarrow> events s2] =
               [''Software Failure, Halting Execution'', ''first'',
                ''Software Failure, Halting Execution'', ''Segmentation fault.''] \<and>
             syslog_file s2 =
               [''[00:00:00] Guru error-handling system is online. Hooking signals...'',
                ''[00:00:00] [CRITICAL] Software Failure, Halting Execution'',
                ''[00:00:00] [CRITICAL] first'',
                ''[00:00:00] [CRITICAL] Software Failure, Halting Execution'',
                ''[00:00:00] [CRITICAL] Segmentation fault.'']
         | _ \<Rightarrow> False)
    | _ \<Rightarrow> False)"
  by code_simp

subsection \<open>One weighted report\<close>

lemma time_str_detector: "detector s' = detector s \<Longrightarrow> time_str s' = time_str s"
  unfolding detector_def time_str_def by simp

lemma log_line_detector: "detector s' = detector s \<Longrightarrow> log_line s' = log_line s"
  using time_str_detector [of s' s] by (intro ext) (simp add: log_line_def)

lemma guru_log_literal_effect:
  assumes "release b = R1_0 \<or> plain m"
  obtains s' where "guru_log b m type args s = Continue s'"
    and "detector s' = detector s"
    and "syslog_open s' = syslog_open s"
    and "funcs s' = funcs s"
    and "last_log_message s' = (if syslog_open s then m else last_log_message s)"
    and "syslog_file s' = syslog_file s @
           (if syslog_open s \<and> m \<noteq> last_log_message s then [log_line s type m] else [])"
  using assms by (simp add: guru_log_literal detector_def)

lemma guru_log_plain_effect:
  assumes "plain m"
  obtains s' where "guru_log b m type args s = Continue s'"
    and "detector s' = detector s"
    and "syslog_open s' = syslog_open s"
    and "funcs s' = funcs s"
    and "last_log_message s' = (if syslog_open s then m else last_log_message s)"
    and "syslog_file s' = syslog_file s @
           (if syslog_open s \<and> m \<noteq> last_log_message s then [log_line s type m] else [])"
  using assms by (simp add: guru_log_plain detector_def)

lemma count_add:
  fixes c w :: "32 word"
  assumes "unat c \<le> 20" and "unat w \<le> 4"
  shows "unat (c + w) = unat c + unat w" and "(c + w > 20) = (unat c + unat w > 20)"
proof -
  have "unat c + unat w < 2 ^ LENGTH(32)" using assms by simp
  then show u: "unat (c + w) = unat c + unat w" by (rule unat_add_lem [THEN iffD1])
  show "(c + w > 20) = (unat c + unat w > 20)"
    by (simp add: word_less_nat_alt u)
qed

lemma unat_cascade_weight:
  "unat (cascade_weight type) =
     (if type = GURU_WARN then 1 else if type = GURU_ERROR then 2
      else if type = GURU_CRITICAL then 4 else 0)"
  by (simp add: cascade_weight_def)

lemma cascade_weight_nonzero:
  "type = GURU_WARN \<or> type = GURU_ERROR \<or> type = GURU_CRITICAL \<Longrightarrow> cascade_weight type \<noteq> 0"
  by (auto simp: cascade_weight_def)

lemma stack_trace_end_effect:
  obtains s' where "stack_trace_end b s = Continue s'" and "detector s' = detector s"
    and "syslog_file s' = syslog_file s" and "last_log_message s' = last_log_message s"
    and "syslog_open s' = syslog_open s"
  by (cases "stack_trace_enabled b \<and> funcs s \<noteq> []")
     (simp_all add: stack_trace_end_def detector_def)

text \<open>
  Inside the window (less than thirty seconds after its start) and at most at the
  threshold: the weight is added, nothing else happens.
\<close>

lemma nonfatal_accumulates:
  assumes valid: "type = GURU_WARN \<or> type = GURU_ERROR \<or> type = GURU_CRITICAL"
    and nt: "\<not> cascade_failure s"
    and pl: "plain m"
    and win: "clock s - cascade_timer s < seconds 30"
    and low: "unat (cascade_count s) + unat (cascade_weight type) \<le> 20"
  shows "\<exists>s'. nonfatal b m type args s = Continue s' \<and> \<not> cascade_failure s' \<and>
           cascade_count s' = cascade_count s + cascade_weight type \<and>
           cascade_timer s' = cascade_timer s \<and> clock s' = clock s"
proof -
  let ?w = "cascade_weight type"
  obtain s1 where l: "guru_log b m type [] (stack_trace b (pf_nonfatal b) s) = Continue s1"
    and d1: "detector s1 = detector (stack_trace b (pf_nonfatal b) s)"
    by (rule guru_log_plain_effect [OF pl])
  have d1': "detector s1 = detector s" using d1 by (simp add: detector_stack_trace)
  have w4: "unat ?w \<le> 4" by (simp add: unat_cascade_weight)
  have c20: "unat (cascade_count s1) \<le> 20" using low d1' by (simp add: detector_def)
  have notover: "\<not> cascade_count s1 + ?w > 20"
    using count_add(2) [OF c20 w4] low d1' by (simp add: detector_def)
  let ?s2 = "s1\<lparr>cascade_count := cascade_count s1 + ?w\<rparr>"
  have c: "nonfatal_cascade b ?w s1 = Continue ?s2"
    using cascade_weight_nonzero [OF valid] win d1' notover
    by (simp add: nonfatal_cascade_def Let_def detector_def window_open)
  obtain s3 where e: "stack_trace_end b ?s2 = Continue s3" and d3: "detector s3 = detector ?s2"
    by (rule stack_trace_end_effect)
  have "nonfatal b m type args s = Continue s3"
    using l c e by (simp add: nonfatal_weighted [OF valid nt construct_plain [OF pl]] seq_def)
  moreover have "detector s3 = detector ?s2" by (rule d3)
  ultimately show ?thesis
    using d1' nt by (intro exI [of _ s3]) (simp add: detector_def)
qed

text \<open>Inside the window and over the threshold: the flag is set and \<^verbatim>\<open>halt\<close> is called.\<close>

lemma nonfatal_trips:
  assumes valid: "type = GURU_WARN \<or> type = GURU_ERROR \<or> type = GURU_CRITICAL"
    and nt: "\<not> cascade_failure s"
    and pl: "plain m"
    and win: "clock s - cascade_timer s < seconds 30"
    and low: "unat (cascade_count s) \<le> 20"
    and high: "unat (cascade_count s) + unat (cascade_weight type) > 20"
  shows "\<exists>s1. cascade_failure s1 \<and> cascade_count s1 = cascade_count s + cascade_weight type \<and>
           cascade_count s1 > CASCADE_THRESHOLD \<and>
           nonfatal b m type args s =
             seq (halt b ''Cascade failure detected!'' []) (stack_trace_end b) s1"
proof -
  let ?w = "cascade_weight type"
  obtain s1 where l: "guru_log b m type [] (stack_trace b (pf_nonfatal b) s) = Continue s1"
    and d1: "detector s1 = detector (stack_trace b (pf_nonfatal b) s)"
    by (rule guru_log_plain_effect [OF pl])
  have d1': "detector s1 = detector s" using d1 by (simp add: detector_stack_trace)
  have w4: "unat ?w \<le> 4" by (simp add: unat_cascade_weight)
  have c20: "unat (cascade_count s1) \<le> 20" using low d1' by (simp add: detector_def)
  have over: "cascade_count s1 + ?w > 20"
    using count_add(2) [OF c20 w4] high d1' by (simp add: detector_def)
  let ?s2 = "s1\<lparr>cascade_count := cascade_count s1 + ?w, cascade_failure := True\<rparr>"
  have c: "nonfatal_cascade b ?w s1 = halt b ''Cascade failure detected!'' [] ?s2"
    using cascade_weight_nonzero [OF valid] win d1' over
    by (simp add: nonfatal_cascade_def Let_def detector_def window_open)
  have "nonfatal b m type args s =
          seq (halt b ''Cascade failure detected!'' []) (stack_trace_end b) ?s2"
    using l c by (simp add: nonfatal_weighted [OF valid nt construct_plain [OF pl]] seq_def)
  moreover have "cascade_failure ?s2" by simp
  moreover have "cascade_count ?s2 = cascade_count s + ?w"
    using d1' by (simp add: detector_def)
  moreover have "cascade_count ?s2 > 20" using over by simp
  ultimately show ?thesis by (intro exI [of _ ?s2] conjI)
qed


subsection \<open>Runs of reports\<close>

text \<open>
  Reports of one severity, each after a lapse of time: \<open>(d, m)\<close> stands for \<open>d\<close>
  nanoseconds going by and then \<^verbatim>\<open>nonfatal(m, type)\<close>.
\<close>

definition reports :: "int \<Rightarrow> (int \<times> string) list \<Rightarrow> call list" where
  "reports type rs = concat (map (\<lambda>(d, m). [Elapse d, Nonfatal m type []]) rs)"










text \<open>
  A run of release 1.0 as shipped, where \<^verbatim>\<open>halt\<close> returns: six criticals, the sixth of
  which declares the cascade, then more reports and other calls.
\<close>

theorem cascade_permanent_witness:
  "\<exists>st s'.
     run shipped_1_0
       (reports GURU_CRITICAL
          [(seconds 1, ''a''), (seconds 2, ''b''), (seconds 3, ''a''), (seconds 4, ''b''),
           (seconds 5, ''a''), (seconds 6, ''b'')])
       (started 0) = Continue st \<and>
     cascade_failure st \<and> halted st = [''Cascade failure detected!''] \<and>
     nonfatal shipped_1_0 ''again'' GURU_CRITICAL [] st = Continue st \<and>
     final (run shipped_1_0
              [Nonfatal ''again'' GURU_CRITICAL [], Elapse (seconds 40),
               Nonfatal ''later'' GURU_ERROR [], CloseSyslog] st) = Some s' \<and>
     cascade_failure s' \<and> halted s' = halted st \<and>
     cascade_halts shipped_1_0
       [Nonfatal ''again'' GURU_CRITICAL [], Elapse (seconds 40),
        Nonfatal ''later'' GURU_ERROR [], CloseSyslog] st = 0 \<and>
     cascade_halts shipped_1_0
       (reports GURU_CRITICAL
          [(seconds 1, ''a''), (seconds 2, ''b''), (seconds 3, ''a''), (seconds 4, ''b''),
           (seconds 5, ''a''), (seconds 6, ''b'')] @
        [Nonfatal ''again'' GURU_CRITICAL [], Elapse (seconds 40),
         Nonfatal ''later'' GURU_ERROR [], CloseSyslog])
       (started 0) \<le> 1"
proof -
  let ?six = "reports GURU_CRITICAL
                [(seconds 1, ''a''), (seconds 2, ''b''), (seconds 3, ''a''), (seconds 4, ''b''),
                 (seconds 5, ''a''), (seconds 6, ''b'')]"
  let ?cs = "[Nonfatal ''again'' GURU_CRITICAL [], Elapse (seconds 40),
              Nonfatal ''later'' GURU_ERROR [], CloseSyslog]"
  have "case run shipped_1_0 ?six (started 0) of
          Continue st \<Rightarrow>
            cascade_failure st \<and> halted st = [''Cascade failure detected!''] \<and>
            (case final (run shipped_1_0 ?cs st) of
               Some s' \<Rightarrow> halted s' = halted st
             | None \<Rightarrow> False)
        | _ \<Rightarrow> False"
    by code_simp
  then obtain st s' where r: "run shipped_1_0 ?six (started 0) = Continue st"
    and t: "cascade_failure st" and h: "halted st = [''Cascade failure detected!'']"
    and f: "final (run shipped_1_0 ?cs st) = Some s'" and h': "halted s' = halted st"
    by (auto split: outcome.splits option.splits)
  show ?thesis
    using cascade_permanent [of shipped_1_0 ?cs "started 0" "''again''" GURU_CRITICAL "[]" st]
          cascade_permanent [of shipped_1_0 "?six @ ?cs" "started 0" "''again''" GURU_CRITICAL "[]" st]
          r t h f h'
    by blast
qed

subsection \<open>Reports with a severity outside warning, error and critical\<close>

lemma log_line_clock:
  "clock s' = clock s \<Longrightarrow> utc_offset s' = utc_offset s \<Longrightarrow> log_line s' = log_line s"
  unfolding log_line_def time_str_def by (intro ext) simp

text \<open>A weighted report that does not trip the detector: what it writes.\<close>

lemma nonfatal_logs:
  assumes valid: "type = GURU_WARN \<or> type = GURU_ERROR \<or> type = GURU_CRITICAL"
    and nt: "\<not> cascade_failure s"
    and pl: "plain m"
    and quiet: "seconds 30 \<le> clock s - cascade_timer s \<or>
                unat (cascade_count s) + unat (cascade_weight type) \<le> 20"
  shows "\<exists>s'. nonfatal b m type args s = Continue s' \<and> \<not> cascade_failure s' \<and>
           syslog_open s' = syslog_open s \<and>
           last_log_message s' = (if syslog_open s then m else last_log_message s) \<and>
           syslog_file s' = syslog_file s @
             (if syslog_open s \<and> m \<noteq> last_log_message s then [log_line s type m] else []) \<and>
           clock s' = clock s \<and> utc_offset s' = utc_offset s"
proof -
  let ?w = "cascade_weight type"
  let ?s0 = "stack_trace b (pf_nonfatal b) s"
  have s0: "syslog_open ?s0 = syslog_open s" "last_log_message ?s0 = last_log_message s"
    "syslog_file ?s0 = syslog_file s"
    by (simp_all add: stack_trace_def)
  have ll: "log_line ?s0 = log_line s"
    by (rule log_line_clock) (simp_all add: stack_trace_def)
  obtain s1 where l: "guru_log b m type [] ?s0 = Continue s1"
    and d1: "detector s1 = detector ?s0"
    and o1: "syslog_open s1 = syslog_open ?s0"
    and m1: "last_log_message s1 = (if syslog_open ?s0 then m else last_log_message ?s0)"
    and f1: "syslog_file s1 = syslog_file ?s0 @
           (if syslog_open ?s0 \<and> m \<noteq> last_log_message ?s0 then [log_line ?s0 type m] else [])"
    by (rule guru_log_plain_effect [OF pl])
  have d1': "detector s1 = detector s" using d1 by (simp add: detector_stack_trace)
  have "\<exists>s2. nonfatal_cascade b ?w s1 = Continue s2 \<and> \<not> cascade_failure s2 \<and>
          syslog_open s2 = syslog_open s1 \<and> last_log_message s2 = last_log_message s1 \<and>
          syslog_file s2 = syslog_file s1 \<and> clock s2 = clock s1 \<and> utc_offset s2 = utc_offset s1"
  proof (cases "seconds 30 \<le> clock s - cascade_timer s")
    case True
    then show ?thesis
      using cascade_weight_nonzero [OF valid] d1' nt
      by (simp add: nonfatal_cascade_def Let_def detector_def window_open)
  next
    case False
    then have low: "unat (cascade_count s) + unat ?w \<le> 20" using quiet by simp
    have w4: "unat ?w \<le> 4" by (simp add: unat_cascade_weight)
    have c20: "unat (cascade_count s1) \<le> 20" using low d1' by (simp add: detector_def)
    have "\<not> cascade_count s1 + ?w > 20"
      using count_add(2) [OF c20 w4] low d1' by (simp add: detector_def)
    then show ?thesis
      using cascade_weight_nonzero [OF valid] False d1' nt
      by (simp add: nonfatal_cascade_def Let_def detector_def window_open)
  qed
  then obtain s2 where c: "nonfatal_cascade b ?w s1 = Continue s2" and nt2: "\<not> cascade_failure s2"
    and o2: "syslog_open s2 = syslog_open s1" and m2: "last_log_message s2 = last_log_message s1"
    and f2: "syslog_file s2 = syslog_file s1" and k2: "clock s2 = clock s1"
    and u2: "utc_offset s2 = utc_offset s1"
    by blast
  obtain s3 where e: "stack_trace_end b s2 = Continue s3" and d3: "detector s3 = detector s2"
    and f3: "syslog_file s3 = syslog_file s2" and m3: "last_log_message s3 = last_log_message s2"
    and o3: "syslog_open s3 = syslog_open s2"
    by (rule stack_trace_end_effect)
  have "nonfatal b m type args s = Continue s3"
    using l c e by (simp add: nonfatal_weighted [OF valid nt construct_plain [OF pl]] seq_def)
  moreover have "\<not> cascade_failure s3" "clock s3 = clock s" "utc_offset s3 = utc_offset s"
    using d3 nt2 k2 u2 d1' by (simp_all add: detector_def)
  moreover have "syslog_open s3 = syslog_open s"
    using o3 o2 o1 s0 by simp
  moreover have "last_log_message s3 = (if syslog_open s then m else last_log_message s)"
    using m3 m2 m1 s0 by simp
  moreover have "syslog_file s3 = syslog_file s @
             (if syslog_open s \<and> m \<noteq> last_log_message s then [log_line s type m] else [])"
    using f3 f2 f1 s0 ll by simp
  ultimately show ?thesis by (intro exI [of _ s3] conjI)
qed

lemma plain_wrong_severity:
  "plain ''Nonfatal error reported with incorrect severity specified.''"
  by (simp add: plain_def)

lemma nonfatal_unweighted_plain:
  assumes "type \<noteq> GURU_WARN" "type \<noteq> GURU_ERROR" "type \<noteq> GURU_CRITICAL"
    and "\<not> cascade_failure s" and "plain m"
  shows "nonfatal b m type args s =
         seq (nonfatal b ''Nonfatal error reported with incorrect severity specified.'' GURU_WARN [])
        (seq (guru_log b m type [])
             (stack_trace_end b)) (stack_trace b (pf_nonfatal b) s)"
  using assms by (intro nonfatal_unweighted construct_plain)

abbreviation (input) wrong_severity :: string where
  "wrong_severity \<equiv> ''Nonfatal error reported with incorrect severity specified.''"

text \<open>
  C9. A report whose severity is none of warning, error and critical has weight 0 itself,
  but \<^verbatim>\<open>nonfatal\<close> first reports the fixed warning through \<^verbatim>\<open>nonfatal\<close>, as a warning,
  and only then logs the message. With the window open (less than thirty seconds after
  its start) that warning adds 1 to the count; with the count at 20 it declares the
  cascade and calls \<^verbatim>\<open>halt\<close>, and the message is logged only if \<^verbatim>\<open>halt\<close> returns.
\<close>

theorem wrong_severity_weighs_one:
  assumes inv: "type \<noteq> GURU_WARN" "type \<noteq> GURU_ERROR" "type \<noteq> GURU_CRITICAL"
    and nt: "\<not> cascade_failure s"
    and pl: "plain m"
    and win: "clock s - cascade_timer s < seconds 30"
  shows "cascade_weight type = 0 \<and>
         nonfatal b m type args s =
           seq (nonfatal b wrong_severity GURU_WARN [])
          (seq (guru_log b m type []) (stack_trace_end b)) (stack_trace b (pf_nonfatal b) s) \<and>
         (unat (cascade_count s) < 20 \<longrightarrow>
            (\<exists>s'. nonfatal b m type args s = Continue s' \<and>
                  cascade_count s' = cascade_count s + CASCADE_WEIGHT_WARNING \<and>
                  \<not> cascade_failure s')) \<and>
         (cascade_count s = CASCADE_THRESHOLD \<longrightarrow>
            (\<exists>s1. cascade_failure s1 \<and> cascade_count s1 = 21 \<and>
                  nonfatal b m type args s =
                    seq (seq (halt b ''Cascade failure detected!'' []) (stack_trace_end b))
                        (seq (guru_log b m type []) (stack_trace_end b)) s1))"
proof (intro conjI impI)
  let ?s0 = "stack_trace b (pf_nonfatal b) s"
  have nt0: "\<not> cascade_failure ?s0" and win0: "clock ?s0 - cascade_timer ?s0 < seconds 30"
    and c0: "cascade_count ?s0 = cascade_count s"
    using nt win by (simp_all add: stack_trace_def)
  have w1: "cascade_weight GURU_WARN = 1" by (simp add: cascade_weight_def)
  show "cascade_weight type = 0" using inv by (simp add: cascade_weight_def)
  show unfold: "nonfatal b m type args s =
           seq (nonfatal b wrong_severity GURU_WARN [])
          (seq (guru_log b m type []) (stack_trace_end b)) ?s0"
    by (rule nonfatal_unweighted_plain [OF inv nt pl])
  {
    assume "unat (cascade_count s) < 20"
    then have low: "unat (cascade_count ?s0) + unat (cascade_weight GURU_WARN) \<le> 20"
      using c0 w1 by simp
    obtain s1 where n1: "nonfatal b wrong_severity GURU_WARN [] ?s0 = Continue s1"
      and nt1: "\<not> cascade_failure s1"
      and c1: "cascade_count s1 = cascade_count ?s0 + cascade_weight GURU_WARN"
      using nonfatal_accumulates [OF _ nt0 plain_wrong_severity win0 low, of b "[]"] by auto
    obtain s2 where l2: "guru_log b m type [] s1 = Continue s2" and d2: "detector s2 = detector s1"
      by (rule guru_log_plain_effect [OF pl])
    obtain s3 where e3: "stack_trace_end b s2 = Continue s3" and d3: "detector s3 = detector s2"
      by (rule stack_trace_end_effect)
    have "nonfatal b m type args s = Continue s3"
      using n1 l2 e3 by (simp add: unfold seq_def)
    moreover have "cascade_count s3 = cascade_count s + 1" "\<not> cascade_failure s3"
      using d3 d2 c1 c0 w1 nt1 by (simp_all add: detector_def)
    ultimately show "\<exists>s'. nonfatal b m type args s = Continue s' \<and>
                  cascade_count s' = cascade_count s + CASCADE_WEIGHT_WARNING \<and>
                  \<not> cascade_failure s'"
      by (intro exI [of _ s3] conjI)
  }
  {
    assume full: "cascade_count s = CASCADE_THRESHOLD"
    have low: "unat (cascade_count ?s0) \<le> 20"
      and high: "unat (cascade_count ?s0) + unat (cascade_weight GURU_WARN) > 20"
      using c0 w1 full by simp_all
    obtain s1 where t1: "cascade_failure s1"
      and c1: "cascade_count s1 = cascade_count ?s0 + cascade_weight GURU_WARN"
      and n1: "nonfatal b wrong_severity GURU_WARN [] ?s0 =
                 seq (halt b ''Cascade failure detected!'' []) (stack_trace_end b) s1"
      using nonfatal_trips [OF _ nt0 plain_wrong_severity win0 low high, of b "[]"] by auto
    have "nonfatal b m type args s =
            seq (seq (halt b ''Cascade failure detected!'' []) (stack_trace_end b))
                (seq (guru_log b m type []) (stack_trace_end b)) s1"
      using n1 by (simp add: unfold seq_def)
    moreover have "cascade_count s1 = 21" using c1 c0 w1 full by simp
    ultimately show "\<exists>s1. cascade_failure s1 \<and> cascade_count s1 = 21 \<and>
                  nonfatal b m type args s =
                    seq (seq (halt b ''Cascade failure detected!'' []) (stack_trace_end b))
                        (seq (guru_log b m type []) (stack_trace_end b)) s1"
      using t1 by (intro exI [of _ s1] conjI)
  }
qed

text \<open>
  C8, as the code has it. With the log open and no cascade declared, a report whose
  severity is none of warning, error and critical appends the fixed warning (unless that
  text is what was logged last) and then the message itself, untagged (unless its text is
  the warning's), provided the warning does not trip the detector (thirty seconds or more
  have gone by since the window started, or the count is below 20) and, in release 1.3,
  which reads the message as a format in \<^verbatim>\<open>nonfatal\<close> and again in \<^verbatim>\<open>log\<close>, the message
  is free of printf directives.
\<close>

theorem wrong_severity_logged:
  assumes inv: "type \<noteq> GURU_WARN" "type \<noteq> GURU_ERROR" "type \<noteq> GURU_CRITICAL"
    and nt: "\<not> cascade_failure s"
    and pl: "release b = R1_0 \<or> plain m"
    and op: "syslog_open s"
    and quiet: "seconds 30 \<le> clock s - cascade_timer s \<or> unat (cascade_count s) < 20"
  shows "\<exists>s'. nonfatal b m type args s = Continue s' \<and>
           syslog_file s' = syslog_file s @
             (if last_log_message s = wrong_severity then []
              else [log_line s GURU_WARN wrong_severity]) @
             (if m = wrong_severity then [] else [log_line s type m])"
proof -
  let ?s0 = "stack_trace b (pf_nonfatal b) s"
  have nt0: "\<not> cascade_failure ?s0" and op0: "syslog_open ?s0"
    and f0: "syslog_file ?s0 = syslog_file s" and m0: "last_log_message ?s0 = last_log_message s"
    using nt op by (simp_all add: stack_trace_def)
  have ll0: "log_line ?s0 = log_line s"
    by (rule log_line_clock) (simp_all add: stack_trace_def)
  have w1: "unat (cascade_weight GURU_WARN) = 1" by (simp add: cascade_weight_def)
  have quiet0: "seconds 30 \<le> clock ?s0 - cascade_timer ?s0 \<or>
                unat (cascade_count ?s0) + unat (cascade_weight GURU_WARN) \<le> 20"
    using quiet w1 by (auto simp: stack_trace_def)
  obtain s1 where n1: "nonfatal b wrong_severity GURU_WARN [] ?s0 = Continue s1"
    and o1: "syslog_open s1 = syslog_open ?s0"
    and m1: "last_log_message s1 = (if syslog_open ?s0 then wrong_severity else last_log_message ?s0)"
    and f1: "syslog_file s1 = syslog_file ?s0 @
             (if syslog_open ?s0 \<and> wrong_severity \<noteq> last_log_message ?s0
              then [log_line ?s0 GURU_WARN wrong_severity] else [])"
    and k1: "clock s1 = clock ?s0" and u1: "utc_offset s1 = utc_offset ?s0"
    using nonfatal_logs [OF _ nt0 plain_wrong_severity quiet0, of b "[]"] by auto
  have ll1: "log_line s1 = log_line s"
    using k1 u1 by (intro log_line_clock) (simp_all add: stack_trace_def)
  obtain s2 where l2: "guru_log b m type [] s1 = Continue s2"
    and f2: "syslog_file s2 = syslog_file s1 @
           (if syslog_open s1 \<and> m \<noteq> last_log_message s1 then [log_line s1 type m] else [])"
    by (rule guru_log_literal_effect [OF pl])
  obtain s3 where e3: "stack_trace_end b s2 = Continue s3" and f3: "syslog_file s3 = syslog_file s2"
    by (rule stack_trace_end_effect)
  have "nonfatal b m type args s = Continue s3"
    using n1 l2 e3 by (simp add: nonfatal_unweighted [OF inv nt construct_literal [OF pl]] seq_def)
  moreover have "syslog_file s3 = syslog_file s @
             (if last_log_message s = wrong_severity then []
              else [log_line s GURU_WARN wrong_severity]) @
             (if m = wrong_severity then [] else [log_line s type m])"
    using f3 f2 f1 o1 m1 op0 f0 m0 ll0 ll1 by auto
  ultimately show ?thesis by (intro exI [of _ s3] conjI)
qed

theorem wrong_severity_weighs_one_witness:
  "(\<exists>s'. nonfatal shipped_1_3 ''note'' GURU_INFO [] (started 0) = Continue s' \<and>
         cascade_count s' = cascade_count (started 0) + CASCADE_WEIGHT_WARNING \<and>
         \<not> cascade_failure s') \<and>
   (\<exists>s1. cascade_failure s1 \<and> cascade_count s1 = 21 \<and>
         nonfatal shipped_1_3 ''note'' GURU_INFO [] ((started 0)\<lparr>cascade_count := 20\<rparr>) =
           seq (seq (halt shipped_1_3 ''Cascade failure detected!'' []) (stack_trace_end shipped_1_3))
               (seq (guru_log shipped_1_3 ''note'' GURU_INFO []) (stack_trace_end shipped_1_3)) s1)"
proof -
  have p: "plain ''note''" by (simp add: plain_def)
  have a: "\<not> cascade_failure (started 0)"
    "clock (started 0) - cascade_timer (started 0) < seconds 30"
    "unat (cascade_count (started 0)) < 20"
    by (simp_all add: started_def initial_def)
  have b: "\<not> cascade_failure ((started 0)\<lparr>cascade_count := 20\<rparr>)"
    "clock ((started 0)\<lparr>cascade_count := 20\<rparr>) - cascade_timer ((started 0)\<lparr>cascade_count := 20\<rparr>)
       < seconds 30"
    "cascade_count ((started 0)\<lparr>cascade_count := 20\<rparr>) = CASCADE_THRESHOLD"
    by (simp_all add: started_def initial_def)
  have i: "GURU_INFO \<noteq> GURU_WARN" "GURU_INFO \<noteq> GURU_ERROR" "GURU_INFO \<noteq> GURU_CRITICAL"
    by simp_all
  show ?thesis
    using wrong_severity_weighs_one [OF i a(1) p a(2), of shipped_1_3 "[]"]
          wrong_severity_weighs_one [OF i b(1) p b(2), of shipped_1_3 "[]"] a(3) b(3)
    by blast
qed

theorem wrong_severity_logged_witness:
  "\<exists>s'. nonfatal shipped_1_3 ''note'' GURU_INFO [] (started 0) = Continue s' \<and>
     syslog_file s' = syslog_file (started 0) @
       [log_line (started 0) GURU_WARN wrong_severity, log_line (started 0) GURU_INFO ''note'']"
proof -
  have p: "release shipped_1_3 = R1_0 \<or> plain ''note''" by (simp add: plain_def)
  have a: "\<not> cascade_failure (started 0)" "syslog_open (started 0)"
    "seconds 30 \<le> clock (started 0) - cascade_timer (started 0) \<or>
     unat (cascade_count (started 0)) < 20"
    "last_log_message (started 0) \<noteq> wrong_severity"
    by (simp_all add: started_def initial_def)
  have i: "GURU_INFO \<noteq> GURU_WARN" "GURU_INFO \<noteq> GURU_ERROR" "GURU_INFO \<noteq> GURU_CRITICAL"
    by simp_all
  have n: "''note'' \<noteq> wrong_severity" by simp
  show ?thesis
    using wrong_severity_logged [OF i a(1) p a(2) a(3), of "[]"]
    by (simp only: a(4) n if_False append.simps)
qed

text \<open>
  C8 as stated fails: after five criticals the count is 20; the next report, of severity
  info, logs the warning, whose weight trips the detector, and release 1.3 exits in
  \<^verbatim>\<open>halt\<close>. The message ``disk low'' never reaches the log.
\<close>

theorem wrong_severity_message_lost:
  "(case run shipped_1_3
           (reports GURU_CRITICAL
              [(seconds 1, ''a''), (seconds 2, ''b''), (seconds 3, ''a''), (seconds 4, ''b''),
               (seconds 5, ''a'')])
           (started 0) of
      Continue s \<Rightarrow>
        \<not> cascade_failure s \<and> syslog_open s \<and>
        (case nonfatal shipped_1_3 ''disk low'' GURU_INFO [] s of
           Exited c s' \<Rightarrow>
             syslog_file s' = syslog_file s @
               [''[00:00:15] [WARN] Nonfatal error reported with incorrect severity specified.'',
                ''[00:00:15] [CRITICAL] Software Failure, Halting Execution'',
                ''[00:00:15] [CRITICAL] Cascade failure detected!'']
         | _ \<Rightarrow> False)
    | _ \<Rightarrow> False)"
  by code_simp

subsection \<open>Repeated messages\<close>

text \<open>
  For a message without printf directives (and for every message in release 1.0, which
  formats nothing) a repeat of the text just logged is dropped whatever the two
  severities are.
\<close>

lemma guru_log_repeat_plain:
  assumes "plain m"
  shows "\<exists>s1. guru_log b m type1 args1 s = Continue s1 \<and>
              guru_log b m type2 args2 s1 =
                (if syslog_open s \<or> m = last_log_message s then Continue s1
                 else guru_log b m type2 args2 s)"
  using assms by (simp add: guru_log_plain)

lemma guru_log_repeat_1_0:
  assumes "release b = R1_0" and "syslog_open s"
  shows "\<exists>s1. guru_log b m type1 args1 s = Continue s1 \<and> guru_log b m type2 args2 s1 = Continue s1"
  using assms by (simp add: guru_log_def construct_def)

text \<open>
  C6. Release 1.3 compares the message as passed with the last message as constructed.
  A message whose construction changes it is never equal to its own last rendering:
  logged twice in a row it is written twice.
\<close>

theorem formatted_repeat_written_twice:
  "(case run shipped_1_3
           [Log ''Loading: 100%%'' GURU_WARN [], Log ''Loading: 100%%'' GURU_ERROR []]
           (started 0) of
      Continue s' \<Rightarrow>
        syslog_file s' = syslog_file (started 0) @
          [''[00:00:00] [WARN] Loading: 100%'', ''[00:00:00] [ERROR] Loading: 100%'']
    | _ \<Rightarrow> False) \<and>
   (case run shipped_1_3
           [Log ''fps %d'' GURU_INFO [IntArg 12], Log ''fps %d'' GURU_INFO [IntArg 12]]
           (started 0) of
      Continue s' \<Rightarrow>
        syslog_file s' = syslog_file (started 0) @ [''[00:00:00] fps 12'', ''[00:00:00] fps 12'']
    | _ \<Rightarrow> False)"
  by code_simp

subsection \<open>The farewell\<close>

text \<open>
  C10 as stated fails: when the last message logged is the first farewell line,
  \<^verbatim>\<open>close_syslog\<close> writes only the second.
\<close>

theorem close_syslog_one_line:
  "(case guru_log shipped_1_3 ''Guru system shutting down.'' GURU_INFO [] (started 0) of
      Continue s \<Rightarrow>
        syslog_open s \<and>
        (case close_syslog shipped_1_3 s of
           Continue s' \<Rightarrow> syslog_file s' = syslog_file s @ [''[00:00:00] The rest is silence.'']
         | _ \<Rightarrow> False)
    | _ \<Rightarrow> False)"
  by code_simp

text \<open>
  C10, as the code has it. With the log open and the last message logged not the first
  farewell line, \<^verbatim>\<open>close_syslog\<close> appends exactly the two farewell lines, in order, and
  closes the stream, after which \<^verbatim>\<open>log\<close> writes nothing; whether a cascade has been declared
  plays no part.
\<close>

theorem close_syslog_farewell:
  assumes "syslog_open s" and "last_log_message s \<noteq> ''Guru system shutting down.''"
  shows "\<exists>s'. close_syslog b s = Continue s' \<and>
           syslog_file s' = syslog_file s @
             [log_line s GURU_INFO ''Guru system shutting down.'',
              log_line s GURU_INFO ''The rest is silence.''] \<and>
           \<not> syslog_open s' \<and>
           cascade_failure s' = cascade_failure s \<and>
           (\<forall>msg type args. guru_log b msg type args s' = Continue s')"
proof -
  let ?s0 = "stack_trace b pf_close_syslog s"
  have p1: "plain ''Guru system shutting down.''" and p2: "plain ''The rest is silence.''"
    by (simp_all add: plain_def)
  have o0: "syslog_open ?s0" and m0: "last_log_message ?s0 = last_log_message s"
    and f0: "syslog_file ?s0 = syslog_file s" and c0: "cascade_failure ?s0 = cascade_failure s"
    using assms by (simp_all add: stack_trace_def)
  have ll0: "log_line ?s0 = log_line s"
    by (rule log_line_clock) (simp_all add: stack_trace_def)
  obtain s1 where l1: "guru_log b ''Guru system shutting down.'' GURU_INFO [] ?s0 = Continue s1"
    and d1: "detector s1 = detector ?s0" and o1: "syslog_open s1 = syslog_open ?s0"
    and m1: "last_log_message s1 =
               (if syslog_open ?s0 then ''Guru system shutting down.'' else last_log_message ?s0)"
    and f1: "syslog_file s1 = syslog_file ?s0 @
               (if syslog_open ?s0 \<and> ''Guru system shutting down.'' \<noteq> last_log_message ?s0
                then [log_line ?s0 GURU_INFO ''Guru system shutting down.''] else [])"
    by (rule guru_log_plain_effect [OF p1])
  have ll1: "log_line s1 = log_line s"
    using d1 by (intro log_line_clock) (simp_all add: detector_def stack_trace_def)
  obtain s2 where l2: "guru_log b ''The rest is silence.'' GURU_INFO [] s1 = Continue s2"
    and d2: "detector s2 = detector s1"
    and f2: "syslog_file s2 = syslog_file s1 @
               (if syslog_open s1 \<and> ''The rest is silence.'' \<noteq> last_log_message s1
                then [log_line s1 GURU_INFO ''The rest is silence.''] else [])"
    by (rule guru_log_plain_effect [OF p2])
  let ?s3 = "s2\<lparr>syslog_open := False, events := events s2 @ [Closed]\<rparr>"
  obtain s4 where e4: "stack_trace_end b ?s3 = Continue s4" and d4: "detector s4 = detector ?s3"
    and f4: "syslog_file s4 = syslog_file ?s3" and o4: "syslog_open s4 = syslog_open ?s3"
    by (rule stack_trace_end_effect)
  have "close_syslog b s = Continue s4"
    using l1 l2 e4 by (simp add: close_syslog_def seq_def)
  moreover have "syslog_file s4 = syslog_file s @
             [log_line s GURU_INFO ''Guru system shutting down.'',
              log_line s GURU_INFO ''The rest is silence.'']"
    using f4 f2 f1 o1 m1 o0 m0 f0 ll0 ll1 assms(2) by simp
  moreover have "\<not> syslog_open s4" using o4 by simp
  moreover have "cascade_failure s4 = cascade_failure s"
    using d4 d2 d1 c0 by (simp add: detector_def)
  moreover have "\<forall>msg type args. guru_log b msg type args s4 = Continue s4"
    using o4 by (simp add: guru_log_def)
  ultimately show ?thesis by (intro exI [of _ s4] conjI)
qed

theorem close_syslog_farewell_witness:
  "\<exists>s'. close_syslog shipped_1_3 ((started 0)\<lparr>cascade_failure := True\<rparr>) = Continue s' \<and>
     syslog_file s' = syslog_file ((started 0)\<lparr>cascade_failure := True\<rparr>) @
       [log_line ((started 0)\<lparr>cascade_failure := True\<rparr>) GURU_INFO ''Guru system shutting down.'',
        log_line ((started 0)\<lparr>cascade_failure := True\<rparr>) GURU_INFO ''The rest is silence.''] \<and>
     \<not> syslog_open s' \<and> cascade_failure s' \<and>
     guru_log shipped_1_3 ''too late'' GURU_ERROR [] s' = Continue s'"
proof -
  have a: "syslog_open ((started 0)\<lparr>cascade_failure := True\<rparr>)"
    "last_log_message ((started 0)\<lparr>cascade_failure := True\<rparr>) \<noteq> ''Guru system shutting down.''"
    "cascade_failure ((started 0)\<lparr>cascade_failure := True\<rparr>)"
    by (simp_all add: started_def initial_def)
  show ?thesis
    using close_syslog_farewell [OF a(1) a(2), of shipped_1_3] a(3) by blast
qed

subsection \<open>The signal handler\<close>

lemma disposition_of_signal_ignore:
  "disposition_of (signal_ignore sig s) x = (if x = sig then SIG_IGN else disposition_of s x)"
  by (simp add: disposition_of_def signal_ignore_def update_conv')

lemma events_signal_ignore:
  "events (signal_ignore sig s) = events s @ [Signalled sig SIG_IGN]"
  by (simp add: signal_ignore_def)

lemma disposition_of_handlers:
  "handlers s' = handlers s \<Longrightarrow> disposition_of s' x = disposition_of s x"
  by (simp add: disposition_of_def)

text \<open>
  C7 as stated fails: with the stack trace compiled in, the first thing the handler does
  is push its own frame; the four \<^verbatim>\<open>signal\<close> calls come after. (In the source the
  \<^verbatim>\<open>switch\<close> that picks the phrase also stands before them.)
\<close>

theorem intercept_signal_pushes_first:
  "(case intercept_signal traced_1_3 SIGSEGV (started 0) of
      Exited c s' \<Rightarrow>
        take 5 (drop (length (events (started 0))) (events s')) =
          [Pushed ''void guru::intercept_signal(int)'',
           Signalled SIGABRT SIG_IGN, Signalled SIGSEGV SIG_IGN,
           Signalled SIGILL SIG_IGN, Signalled SIGFPE SIG_IGN]
    | _ \<Rightarrow> False)"
  by code_simp

text \<open>
  C7, as the code has it. The handler opens its stack-trace scope (when compiled in) and
  picks the phrase for the signal, the generic one for a signal that is none of the four;
  it then sets abort, segmentation fault, illegal instruction and floating-point exception
  to ignored, in this order, and only then calls \<^verbatim>\<open>halt\<close> with the phrase. The four stay
  ignored whatever \<^verbatim>\<open>halt\<close> does.
\<close>

theorem intercept_signal_order:
  "\<exists>s2. intercept_signal b sig s = seq (halt b (sig_type sig) []) (stack_trace_end b) s2 \<and>
     events s2 = events s @
       (if stack_trace_enabled b then [Pushed pf_intercept_signal] else []) @
       [Signalled SIGABRT SIG_IGN, Signalled SIGSEGV SIG_IGN,
        Signalled SIGILL SIG_IGN, Signalled SIGFPE SIG_IGN] \<and>
     list_all (\<lambda>x. disposition_of s2 x = SIG_IGN) [SIGABRT, SIGSEGV, SIGILL, SIGFPE] \<and>
     (\<forall>s'. final (intercept_signal b sig s) = Some s' \<longrightarrow>
        list_all (\<lambda>x. disposition_of s' x = SIG_IGN) [SIGABRT, SIGSEGV, SIGILL, SIGFPE]) \<and>
     sig_type SIGABRT = ''Software requested abort.'' \<and>
     sig_type SIGSEGV = ''Segmentation fault.'' \<and>
     sig_type SIGILL = ''Illegal instruction.'' \<and>
     sig_type SIGFPE = ''Floating-point exception.'' \<and>
     (\<forall>n. sig_type (SIGOTHER n) = ''Intercepted unknown signal.'')"
proof -
  let ?s2 = "signal_ignore SIGFPE (signal_ignore SIGILL
      (signal_ignore SIGSEGV (signal_ignore SIGABRT (stack_trace b pf_intercept_signal s))))"
  have eq: "intercept_signal b sig s = seq (halt b (sig_type sig) []) (stack_trace_end b) ?s2"
    by (simp add: intercept_signal_def Let_def)
  have ev: "events ?s2 = events s @
       (if stack_trace_enabled b then [Pushed pf_intercept_signal] else []) @
       [Signalled SIGABRT SIG_IGN, Signalled SIGSEGV SIG_IGN,
        Signalled SIGILL SIG_IGN, Signalled SIGFPE SIG_IGN]"
    by (simp add: events_signal_ignore stack_trace_def)
  have ig: "list_all (\<lambda>x. disposition_of ?s2 x = SIG_IGN) [SIGABRT, SIGSEGV, SIGILL, SIGFPE]"
    by (simp add: disposition_of_signal_ignore)
  have fin: "\<forall>s'. final (intercept_signal b sig s) = Some s' \<longrightarrow>
        list_all (\<lambda>x. disposition_of s' x = SIG_IGN) [SIGABRT, SIGSEGV, SIGILL, SIGFPE]"
  proof (intro allI impI)
    fix s'
    assume "final (intercept_signal b sig s) = Some s'"
    then have "detector s' = detector ?s2" by (rule intercept_signal_detector)
    then have "handlers s' = handlers ?s2" by (simp add: detector_def)
    then have "disposition_of s' = disposition_of ?s2"
      by (intro ext disposition_of_handlers)
    then show "list_all (\<lambda>x. disposition_of s' x = SIG_IGN) [SIGABRT, SIGSEGV, SIGILL, SIGFPE]"
      using ig by simp
  qed
  have ph: "sig_type SIGABRT = ''Software requested abort.''"
    "sig_type SIGSEGV = ''Segmentation fault.''"
    "sig_type SIGILL = ''Illegal instruction.''"
    "sig_type SIGFPE = ''Floating-point exception.''"
    "\<forall>n. sig_type (SIGOTHER n) = ''Intercepted unknown signal.''"
    by (simp_all add: sig_type_def)
  show ?thesis
    using eq ev ig fin ph by (intro exI [of _ ?s2] conjI)
qed

theorem intercept_signal_order_witness:
  "\<exists>s2 s'. intercept_signal traced_1_3 (SIGOTHER 7) (started 0) =
       seq (halt traced_1_3 ''Intercepted unknown signal.'' []) (stack_trace_end traced_1_3) s2 \<and>
     events s2 = events (started 0) @
       [Pushed pf_intercept_signal,
        Signalled SIGABRT SIG_IGN, Signalled SIGSEGV SIG_IGN,
        Signalled SIGILL SIG_IGN, Signalled SIGFPE SIG_IGN] \<and>
     final (intercept_signal traced_1_3 (SIGOTHER 7) (started 0)) = Some s' \<and>
     list_all (\<lambda>x. disposition_of s' x = SIG_IGN) [SIGABRT, SIGSEGV, SIGILL, SIGFPE]"
proof -
  have "final (intercept_signal traced_1_3 (SIGOTHER 7) (started 0)) \<noteq> None" by code_simp
  then obtain s' where f: "final (intercept_signal traced_1_3 (SIGOTHER 7) (started 0)) = Some s'"
    by blast
  have en: "stack_trace_enabled traced_1_3"
    by (simp add: stack_trace_enabled_def traced_1_3_def)
  obtain s2 where "intercept_signal traced_1_3 (SIGOTHER 7) (started 0) =
       seq (halt traced_1_3 (sig_type (SIGOTHER 7)) []) (stack_trace_end traced_1_3) s2"
    and "events s2 = events (started 0) @
       (if stack_trace_enabled traced_1_3 then [Pushed pf_intercept_signal] else []) @
       [Signalled SIGABRT SIG_IGN, Signalled SIGSEGV SIG_IGN,
        Signalled SIGILL SIG_IGN, Signalled SIGFPE SIG_IGN]"
    and "list_all (\<lambda>x. disposition_of s' x = SIG_IGN) [SIGABRT, SIGSEGV, SIGILL, SIGFPE]"
    and "sig_type (SIGOTHER 7) = ''Intercepted unknown signal.''"
    using intercept_signal_order [of traced_1_3 "SIGOTHER 7" "started 0"] f by blast
  then show ?thesis using f en by (intro exI [of _ s2] exI [of _ s']) simp
qed

subsection \<open>Decimal labels\<close>

lemma digit_char_digit: "digit_char d \<in> set ''0123456789''"
  unfolding digit_char_def by (rule nth_mem) simp

lemma digit_char_inj: "digit_char a = digit_char b \<Longrightarrow> a mod 10 = b mod 10"
proof -
  assume "digit_char a = digit_char b"
  then have "''0123456789'' ! (a mod 10) = ''0123456789'' ! (b mod 10)"
    by (simp only: digit_char_def)
  moreover have "distinct ''0123456789''" by simp
  moreover have "a mod 10 < length ''0123456789''" "b mod 10 < length ''0123456789''" by simp_all
  ultimately show ?thesis by (simp only: nth_eq_iff_index_eq)
qed

lemma to_string_digits: "set (to_string n) \<subseteq> set ''0123456789''"
proof (induction n rule: to_string.induct)
  case (1 n)
  show ?case
  proof (cases "n < 10")
    case True
    then show ?thesis using digit_char_digit [of n] by (simp add: to_string.simps [of n])
  next
    case False
    then show ?thesis
      using "1.IH" digit_char_digit [of n] by (simp add: to_string.simps [of n])
  qed
qed

lemma to_string_not_Nil: "to_string n \<noteq> []"
  by (simp add: to_string.simps [of n])

lemma to_string_length: "(length (to_string n) = Suc 0) = (n < 10)"
  using to_string_not_Nil [of "n div 10"]
  by (auto simp: to_string.simps [of n])

lemma to_string_small: "n < 10 \<Longrightarrow> to_string n = [digit_char n]"
  by (subst to_string.simps) simp

lemma to_string_large: "\<not> n < 10 \<Longrightarrow> to_string n = to_string (n div 10) @ [digit_char n]"
  by (subst to_string.simps) simp

lemma to_string_inj: "to_string a = to_string b \<Longrightarrow> a = b"
proof (induction a arbitrary: b rule: to_string.induct)
  case (1 a)
  show ?case
  proof (cases "a < 10")
    case True
    have "length (to_string a) = Suc 0" using True by (simp add: to_string_length)
    then have "length (to_string b) = Suc 0" by (simp only: "1.prems")
    then have b: "b < 10" by (simp add: to_string_length)
    have "[digit_char a] = [digit_char b]"
      using "1.prems" by (simp only: to_string_small [OF True] to_string_small [OF b])
    then have "digit_char a = digit_char b" by simp
    then have "a mod 10 = b mod 10" by (rule digit_char_inj)
    then show ?thesis using True b by simp
  next
    case False
    have "length (to_string a) \<noteq> Suc 0" using False by (simp add: to_string_length)
    then have "length (to_string b) \<noteq> Suc 0" using "1.prems" by simp
    then have b: "\<not> b < 10" by (simp add: to_string_length)
    have "to_string (a div 10) @ [digit_char a] = to_string (b div 10) @ [digit_char b]"
      using "1.prems" by (simp only: to_string_large [OF False] to_string_large [OF b])
    then have e: "to_string (a div 10) = to_string (b div 10)" and d: "digit_char a = digit_char b"
      by simp_all
    have q: "a div 10 = b div 10" using e by (rule "1.IH" [OF False])
    have r: "a mod 10 = b mod 10" using d by (rule digit_char_inj)
    have "a = 10 * (a div 10) + a mod 10" by simp
    also have "\<dots> = 10 * (b div 10) + b mod 10" by (simp only: q r)
    also have "\<dots> = b" by simp
    finally show ?thesis .
  qed
qed

lemma plain_to_string: "plain (to_string n)"
  using to_string_digits [of n] by (auto simp: plain_def)

lemma plain_append: "plain (xs @ ys) = (plain xs \<and> plain ys)"
  by (auto simp: plain_def)

lemma takeWhile_upto: "c \<notin> set xs \<Longrightarrow> takeWhile (\<lambda>x. x \<noteq> c) (xs @ c # ys) = xs"
  by (induction xs) auto

text \<open>A label ends at its colon: two labelled lines are equal only for equal numbers.\<close>

lemma labelled_inj:
  assumes "to_string a @ '': '' @ f = to_string b @ '': '' @ g"
  shows "a = b"
proof -
  have na: "CHR '':'' \<notin> set (to_string a)" and nb: "CHR '':'' \<notin> set (to_string b)"
    using to_string_digits [of a] to_string_digits [of b] by auto
  have "takeWhile (\<lambda>c. c \<noteq> CHR '':'') (to_string a @ '': '' @ f) = to_string a"
    using na by (simp add: takeWhile_upto)
  moreover have "takeWhile (\<lambda>c. c \<noteq> CHR '':'') (to_string b @ '': '' @ g) = to_string b"
    using nb by (simp add: takeWhile_upto)
  ultimately have "to_string a = to_string b" using assms by simp
  then show ?thesis by (rule to_string_inj)
qed

lemma labelled_not_header: "to_string a @ '': '' @ f \<noteq> ''Stack trace follows:''"
proof
  assume "to_string a @ '': '' @ f = ''Stack trace follows:''"
  then have "hd (to_string a) = CHR ''S''"
    using to_string_not_Nil [of a] by (cases "to_string a") simp_all
  moreover have "hd (to_string a) \<in> set ''0123456789''"
    using to_string_digits [of a] to_string_not_Nil [of a] hd_in_set by blast
  ultimately show False by simp
qed

lemma frame_label_small:
  "release b = R1_3 \<or> n < 2 ^ 32 \<Longrightarrow> frame_label b n = to_string n"
  by (cases "release b") (auto simp: frame_label_def unat_of_nat)

subsection \<open>The stack trace\<close>

text \<open>
  The lines a stack of frames (top first) is to produce: one per frame, the top frame
  first, each numbered with the count of frames below it, so the numbers run from
  \<open>N - 1\<close> down to \<open>0\<close>, written \<^verbatim>\<open><depth>: <identifier>\<close>.
\<close>

definition trace_lines :: "string list \<Rightarrow> string list" where
  "trace_lines fs = map (\<lambda>(k, f). to_string k @ '': '' @ f) (zip (rev [0..<length fs]) fs)"

lemma trace_lines_Cons:
  "trace_lines (f # fs) = (to_string (length fs) @ '': '' @ f) # trace_lines fs"
  by (simp add: trace_lines_def)

lemma length_trace_lines: "length (trace_lines fs) = length fs"
  by (simp add: trace_lines_def)

lemma guru_log_written:
  assumes "release b = R1_0 \<or> plain m" and "syslog_open s" and "m \<noteq> last_log_message s"
  shows "guru_log b m type [] s =
         Continue (s\<lparr>last_log_message := m,
                     syslog_file := syslog_file s @ [log_line s type m],
                     events := events s @ [Wrote (log_line s type m)]\<rparr>)"
proof -
  have "construct b m [] = Some m"
    using assms(1) by (auto simp: construct_plain) (simp add: construct_def)
  then show ?thesis using assms(2,3) by (simp add: guru_log_def)
qed

lemma trace_loop_effect:
  "funcs s = fs \<Longrightarrow> fs \<noteq> [] \<Longrightarrow> syslog_open s \<Longrightarrow>
   release b = R1_0 \<or> list_all plain fs \<Longrightarrow>
   release b = R1_3 \<or> length fs \<le> 2 ^ 32 \<Longrightarrow>
   last_log_message s \<noteq> to_string (length fs - 1) @ '': '' @ hd fs \<Longrightarrow>
   \<exists>s'. trace_loop b s = Continue s' \<and> funcs s' = [last fs] \<and>
        syslog_file s' = syslog_file s @ map (log_line s GURU_STACK) (trace_lines fs)"
proof (induction fs arbitrary: s)
  case Nil
  then show ?case by simp
next
  case (Cons f fs)
  let ?line = "to_string (length fs) @ '': '' @ f"
  let ?s0 = "guru_itos_scope b s"
  let ?s1 = "?s0\<lparr>last_log_message := ?line,
                syslog_file := syslog_file ?s0 @ [log_line ?s0 GURU_STACK ?line],
                events := events ?s0 @ [Wrote (log_line ?s0 GURU_STACK ?line)]\<rparr>"
  have ll0: "log_line ?s0 = log_line s"
    by (rule log_line_clock) simp_all
  have "release b = R1_3 \<or> length fs < 2 ^ 32" using Cons.prems(5) by auto
  then have "frame_label b (length fs) = to_string (length fs)"
    by (rule frame_label_small)
  then have lab: "frame_label b (length (funcs s) - 1) = to_string (length fs)"
    using Cons.prems(1) by simp
  have lit: "release b = R1_0 \<or> plain ?line"
    using Cons.prems(4) by (auto simp: plain_append plain_to_string) (simp add: plain_def)
  have new: "?line \<noteq> last_log_message ?s0" using Cons.prems(6) by auto
  have op0: "syslog_open ?s0" using Cons.prems(3) by simp
  have l: "guru_log b (frame_label b (length (funcs s) - 1) @ '': '' @ f) GURU_STACK [] ?s0
             = Continue ?s1"
    unfolding lab by (rule guru_log_written [OF lit op0 new])
  show ?case
  proof (cases fs)
    case Nil
    have "trace_loop b s = Continue ?s1"
      using l Cons.prems(1) Nil by (subst trace_loop.simps) simp
    then show ?thesis
      using Cons.prems(1) Nil by (intro exI [of _ ?s1]) (simp add: trace_lines_def ll0)
  next
    case (Cons g rest)
    let ?s2 = "?s1\<lparr>funcs := tl (funcs ?s1), events := events ?s1 @ [Popped]\<rparr>"
    have step: "trace_loop b s = trace_loop b ?s2"
      using l Cons.prems(1) Cons by (subst trace_loop.simps) simp
    have f2: "funcs ?s2 = fs" using Cons.prems(1) by simp
    have ne: "fs \<noteq> []" using Cons by simp
    have o2: "syslog_open ?s2" using Cons.prems(3) by simp
    have p2: "release b = R1_0 \<or> list_all plain fs" using Cons.prems(4) by auto
    have z2: "release b = R1_3 \<or> length fs \<le> 2 ^ 32" using Cons.prems(5) by auto
    have "length fs \<noteq> length fs - 1" using ne by (cases fs) simp_all
    then have "?line \<noteq> to_string (length fs - 1) @ '': '' @ hd fs"
      using labelled_inj [of "length fs" f "length fs - 1" "hd fs"] by blast
    then have m2: "last_log_message ?s2 \<noteq> to_string (length fs - 1) @ '': '' @ hd fs"
      by simp
    obtain s' where r: "trace_loop b ?s2 = Continue s'" and fl: "funcs s' = [last fs]"
      and fi: "syslog_file s' = syslog_file ?s2 @ map (log_line ?s2 GURU_STACK) (trace_lines fs)"
      using Cons.IH [OF f2 ne o2 p2 z2 m2] by blast
    have ll: "log_line ?s2 = log_line s"
      by (rule log_line_clock) simp_all
    have "syslog_file s' = syslog_file ?s2 @ map (log_line s GURU_STACK) (trace_lines fs)"
      using fi by (simp only: ll)
    then have "syslog_file s' = syslog_file s @ map (log_line s GURU_STACK) (trace_lines (f # fs))"
      by (simp add: trace_lines_Cons ll0)
    then show ?thesis
      using r fl ne step by (intro exI [of _ s']) simp
  qed
qed

text \<open>With the log closed the loop pops the frames all the same and writes nothing.\<close>

lemma trace_loop_closed:
  "funcs s = fs \<Longrightarrow> fs \<noteq> [] \<Longrightarrow> \<not> syslog_open s \<Longrightarrow>
   \<exists>s'. trace_loop b s = Continue s' \<and> funcs s' = [last fs] \<and> syslog_file s' = syslog_file s"
proof (induction fs arbitrary: s)
  case Nil
  then show ?case by simp
next
  case (Cons f fs)
  let ?s0 = "guru_itos_scope b s"
  have l: "guru_log b (frame_label b (length (funcs s) - 1) @ '': '' @ f) GURU_STACK [] ?s0
             = Continue ?s0"
    using Cons.prems(3) by (simp add: guru_log_def)
  show ?case
  proof (cases fs)
    case Nil
    have "trace_loop b s = Continue ?s0"
      using l Cons.prems(1) Nil by (subst trace_loop.simps) simp
    then show ?thesis
      using Cons.prems(1) Nil by (intro exI [of _ ?s0]) simp
  next
    case (Cons g rest)
    let ?s2 = "?s0\<lparr>funcs := tl (funcs ?s0), events := events ?s0 @ [Popped]\<rparr>"
    have step: "trace_loop b s = trace_loop b ?s2"
      using l Cons.prems(1) Cons by (subst trace_loop.simps) simp
    have f2: "funcs ?s2 = fs" using Cons.prems(1) by simp
    have ne: "fs \<noteq> []" using Cons by simp
    have o2: "\<not> syslog_open ?s2" using Cons.prems(3) by simp
    obtain s' where r: "trace_loop b ?s2 = Continue s'" and fl: "funcs s' = [last fs]"
      and fi: "syslog_file s' = syslog_file ?s2"
      using Cons.IH [OF f2 ne o2] by blast
    show ?thesis
      using r fl fi ne step by (intro exI [of _ s']) simp
  qed
qed

abbreviation (input) halt_banner :: string where
  "halt_banner \<equiv> ''Software Failure, Halting Execution''"

abbreviation (input) trace_heading :: string where
  "trace_heading \<equiv> ''Stack trace follows:''"

text \<open>
  The stack-trace block of \<^verbatim>\<open>halt\<close> on a stack that is not empty: the heading (unless
  that text was logged last), one line per frame, and the first frame pushed left alone
  on the stack.
\<close>

lemma halt_stack_trace_effect:
  assumes en: "stack_trace_enabled b"
    and ne: "funcs s \<noteq> []"
    and pl: "release b = R1_0 \<or> list_all plain (funcs s)"
    and sz: "release b = R1_3 \<or> length (funcs s) \<le> 2 ^ 32"
  shows "\<exists>s'. halt_stack_trace b s = Continue s' \<and> funcs s' = [last (funcs s)] \<and>
           syslog_file s' = syslog_file s @
             (if syslog_open s
              then (if last_log_message s = trace_heading then []
                    else [log_line s GURU_STACK trace_heading]) @
                   map (log_line s GURU_STACK) (trace_lines (funcs s))
              else [])"
proof (cases "syslog_open s")
  case op: True
  have ph: "plain ''Stack trace follows:''" by (simp add: plain_def)
  obtain s1 where l1: "guru_log b ''Stack trace follows:'' GURU_STACK [] s = Continue s1"
    and d1: "detector s1 = detector s"
    and o1: "syslog_open s1 = syslog_open s"
    and f1: "funcs s1 = funcs s"
    and m1: "last_log_message s1 = (if syslog_open s then ''Stack trace follows:'' else last_log_message s)"
    and w1: "syslog_file s1 = syslog_file s @
           (if syslog_open s \<and> ''Stack trace follows:'' \<noteq> last_log_message s
            then [log_line s GURU_STACK ''Stack trace follows:''] else [])"
    by (rule guru_log_plain_effect [OF ph])
  have ll: "log_line s1 = log_line s" using d1 by (rule log_line_detector)
  have m1': "last_log_message s1 \<noteq> to_string (length (funcs s) - 1) @ '': '' @ hd (funcs s)"
    using m1 op labelled_not_header [of "length (funcs s) - 1" "hd (funcs s)"] by simp
  obtain s' where r: "trace_loop b s1 = Continue s'" and fl: "funcs s' = [last (funcs s)]"
    and fi: "syslog_file s' = syslog_file s1 @ map (log_line s1 GURU_STACK) (trace_lines (funcs s))"
    using trace_loop_effect [OF f1 ne _ pl sz m1'] o1 op by auto
  have "halt_stack_trace b s = Continue s'"
    using en ne l1 r by (simp add: halt_stack_trace_def seq_def)
  moreover have "syslog_file s' = syslog_file s @
                    (if last_log_message s = ''Stack trace follows:'' then []
                     else [log_line s GURU_STACK ''Stack trace follows:'']) @
                    map (log_line s GURU_STACK) (trace_lines (funcs s))"
    using fi w1 op by (simp only: ll) auto
  ultimately show ?thesis
    using fl op by (intro exI [of _ s']) simp
next
  case False
  have l1: "guru_log b trace_heading GURU_STACK [] s = Continue s"
    using False by (simp add: guru_log_def)
  obtain s' where "trace_loop b s = Continue s'" and "funcs s' = [last (funcs s)]"
    and "syslog_file s' = syslog_file s"
    using trace_loop_closed [OF refl ne False] by blast
  then show ?thesis
    using en ne l1 False by (intro exI [of _ s']) (simp add: halt_stack_trace_def seq_def)
qed

lemma plain_pf_halt: "plain (pf_halt b)"
  by (simp add: pf_halt_def plain_def)

text \<open>
  C5 as stated fails: \<^verbatim>\<open>halt\<close> pushes its own frame before it looks at the stack. Called
  with an empty stack it still writes a trace section, of one line; called with two frames
  on the stack it writes three lines, numbered 2 down to 0.
\<close>

theorem halt_traces_own_frame:
  "funcs (started 0) = [] \<and>
   (case halt traced_1_3 ''disk full'' [] (started 0) of
      Exited c s' \<Rightarrow>
        syslog_file s' = syslog_file (started 0) @
          [''[00:00:00] [CRITICAL] Software Failure, Halting Execution'',
           ''[00:00:00] [CRITICAL] disk full'',
           ''[00:00:00] Stack trace follows:'',
           ''[00:00:00] 0: void guru::halt(std::string, ...)''] \<and>
        funcs s' = [''void guru::halt(std::string, ...)'']
    | _ \<Rightarrow> False) \<and>
   (case halt traced_1_3 ''disk full'' []
           ((started 0)\<lparr>funcs := [''void load()'', ''int main()'']\<rparr>) of
      Exited c s' \<Rightarrow>
        syslog_file s' = syslog_file (started 0) @
          [''[00:00:00] [CRITICAL] Software Failure, Halting Execution'',
           ''[00:00:00] [CRITICAL] disk full'',
           ''[00:00:00] Stack trace follows:'',
           ''[00:00:00] 2: void guru::halt(std::string, ...)'',
           ''[00:00:00] 1: void load()'',
           ''[00:00:00] 0: int main()''] \<and>
        funcs s' = [''int main()'']
    | _ \<Rightarrow> False)"
  by code_simp

text \<open>
  C5, as the code has it. \<^verbatim>\<open>halt\<close>, called with \<open>N \<ge> 0\<close> frames on the stack, reaches its
  exits and its notice in a state \<open>s3\<close> as follows. With the stack trace compiled in,
  \<^verbatim>\<open>halt\<close> has pushed its own frame and popped every frame but the first one pushed (its
  own when \<open>N = 0\<close>), which alone is left. With the log open it has written its banner
  (unless that text was logged last), its message (unless it is the banner's text) and,
  when the stack trace is compiled in, the heading (unless the message is the heading's
  text) and exactly \<open>N + 1\<close> lines, untagged, written \<^verbatim>\<open><depth>: <identifier>\<close> and numbered
  \<open>N\<close> down to \<open>0\<close>, its own frame first and the first frame pushed last. With the log
  closed it has written nothing; without the stack trace it writes no trace section.
  Release 1.3 reads every line as a format: there the message and the frames are taken
  free of printf directives. In release 1.0 the number is an \<^verbatim>\<open>unsigned int\<close>: there the
  stack is taken less than \<open>2\<^sup>3\<^sup>2\<close> deep.
\<close>

theorem halt_drains_stack:
  assumes pl: "release b = R1_0 \<or> (plain error \<and> list_all plain (funcs s))"
    and sz: "release b = R1_3 \<or> length (funcs s) < 2 ^ 32"
  shows "\<exists>s3. halt b error args s = seq (halt_present b error) (stack_trace_end b) s3 \<and>
           funcs s3 = (if stack_trace_enabled b then [last (pf_halt b # funcs s)] else funcs s) \<and>
           syslog_file s3 = syslog_file s @
             (if syslog_open s then
                (if last_log_message s = halt_banner then []
                 else [log_line s GURU_CRITICAL halt_banner]) @
                (if error = halt_banner then [] else [log_line s GURU_CRITICAL error]) @
                (if stack_trace_enabled b then
                   (if error = trace_heading then [] else [log_line s GURU_STACK trace_heading]) @
                   map (log_line s GURU_STACK) (trace_lines (pf_halt b # funcs s))
                 else [])
              else []) \<and>
           length (trace_lines (pf_halt b # funcs s)) = length (funcs s) + 1 \<and>
           (\<forall>l. log_line s GURU_STACK l = ''['' @ time_str s @ ''] '' @ l)"
proof -
  let ?s0 = "stack_trace b (pf_halt b) (halt_entered error s)"
  have lit: "release b = R1_0 \<or> plain error" using pl by auto
  have c: "construct b error args = Some error" using lit by (rule construct_literal)
  have pb: "plain halt_banner" by (simp add: plain_def)
  have f0: "funcs ?s0 = (if stack_trace_enabled b then pf_halt b # funcs s else funcs s)"
    and o0: "syslog_open ?s0 = syslog_open s"
    and m0: "last_log_message ?s0 = last_log_message s"
    and w0: "syslog_file ?s0 = syslog_file s"
    by (simp_all add: stack_trace_def halt_entered_def)
  have ll0: "log_line ?s0 = log_line s"
    by (rule log_line_clock) (simp_all add: stack_trace_def halt_entered_def)
  obtain s1 where l1: "guru_log b halt_banner GURU_CRITICAL [] ?s0 = Continue s1"
    and d1: "detector s1 = detector ?s0"
    and o1: "syslog_open s1 = syslog_open ?s0"
    and f1: "funcs s1 = funcs ?s0"
    and m1: "last_log_message s1 = (if syslog_open ?s0 then halt_banner else last_log_message ?s0)"
    and w1: "syslog_file s1 = syslog_file ?s0 @
           (if syslog_open ?s0 \<and> halt_banner \<noteq> last_log_message ?s0
            then [log_line ?s0 GURU_CRITICAL halt_banner] else [])"
    by (rule guru_log_plain_effect [OF pb])
  have ll1: "log_line s1 = log_line s"
    using log_line_detector [OF d1] ll0 by simp
  obtain s2 where l2: "guru_log b error GURU_CRITICAL [] s1 = Continue s2"
    and d2: "detector s2 = detector s1"
    and o2: "syslog_open s2 = syslog_open s1"
    and f2: "funcs s2 = funcs s1"
    and m2: "last_log_message s2 = (if syslog_open s1 then error else last_log_message s1)"
    and w2: "syslog_file s2 = syslog_file s1 @
           (if syslog_open s1 \<and> error \<noteq> last_log_message s1
            then [log_line s1 GURU_CRITICAL error] else [])"
    by (rule guru_log_literal_effect [OF lit])
  have ll2: "log_line s2 = log_line s"
    using log_line_detector [OF d2] ll1 by simp
  have len: "length (trace_lines (pf_halt b # funcs s)) = length (funcs s) + 1"
    by (simp add: length_trace_lines)
  have tag: "\<forall>l. log_line s GURU_STACK l = ''['' @ time_str s @ ''] '' @ l"
    by (simp add: log_line_def txt_tag_def)
  have pre: "syslog_file s2 = syslog_file s @
      (if syslog_open s then
         (if last_log_message s = halt_banner then []
          else [log_line s GURU_CRITICAL halt_banner]) @
         (if error = halt_banner then [] else [log_line s GURU_CRITICAL error])
       else [])"
    using w2 w1 m1 o1 o0 m0 w0 by (simp only: ll0 ll1) auto
  show ?thesis
  proof (cases "stack_trace_enabled b")
    case True
    have fs2: "funcs s2 = pf_halt b # funcs s" using f2 f1 f0 True by simp
    then have ne: "funcs s2 \<noteq> []" by simp
    have pl2: "release b = R1_0 \<or> list_all plain (funcs s2)"
      using pl fs2 plain_pf_halt by auto
    have sz2: "release b = R1_3 \<or> length (funcs s2) \<le> 2 ^ 32"
      using sz fs2 by auto
    obtain s3 where h: "halt_stack_trace b s2 = Continue s3"
      and f3: "funcs s3 = [last (funcs s2)]"
      and w3: "syslog_file s3 = syslog_file s2 @
             (if syslog_open s2
              then (if last_log_message s2 = trace_heading then []
                    else [log_line s2 GURU_STACK trace_heading]) @
                   map (log_line s2 GURU_STACK) (trace_lines (funcs s2))
              else [])"
      using halt_stack_trace_effect [OF True ne pl2 sz2] by blast
    have "halt b error args s = seq (halt_present b error) (stack_trace_end b) s3"
      using c l1 l2 h by (simp add: halt_def seq_def)
    moreover have "funcs s3 =
        (if stack_trace_enabled b then [last (pf_halt b # funcs s)] else funcs s)"
      using f3 fs2 True by simp
    moreover have "syslog_file s3 = syslog_file s @
             (if syslog_open s then
                (if last_log_message s = halt_banner then []
                 else [log_line s GURU_CRITICAL halt_banner]) @
                (if error = halt_banner then [] else [log_line s GURU_CRITICAL error]) @
                (if stack_trace_enabled b then
                   (if error = trace_heading then [] else [log_line s GURU_STACK trace_heading]) @
                   map (log_line s GURU_STACK) (trace_lines (pf_halt b # funcs s))
                 else [])
              else [])"
      using w3 pre m2 o2 o1 o0 fs2 True by (simp only: ll2) auto
    ultimately show ?thesis using len tag by (intro exI [of _ s3] conjI)
  next
    case False
    have h: "halt_stack_trace b s2 = Continue s2"
      using False by (simp add: halt_stack_trace_def)
    have "halt b error args s = seq (halt_present b error) (stack_trace_end b) s2"
      using c l1 l2 h by (simp add: halt_def seq_def)
    moreover have "funcs s2 =
        (if stack_trace_enabled b then [last (pf_halt b # funcs s)] else funcs s)"
      using f2 f1 f0 False by simp
    moreover have "syslog_file s2 = syslog_file s @
             (if syslog_open s then
                (if last_log_message s = halt_banner then []
                 else [log_line s GURU_CRITICAL halt_banner]) @
                (if error = halt_banner then [] else [log_line s GURU_CRITICAL error]) @
                (if stack_trace_enabled b then
                   (if error = trace_heading then [] else [log_line s GURU_STACK trace_heading]) @
                   map (log_line s GURU_STACK) (trace_lines (pf_halt b # funcs s))
                 else [])
              else [])"
      using pre False by simp
    ultimately show ?thesis using len tag by (intro exI [of _ s2] conjI)
  qed
qed

text \<open>
  A traced build of release 1.3 with two frames on the stack and the log open; release
  1.0 as shipped with one frame on the stack and the log not open.
\<close>

theorem halt_drains_stack_witness:
  "(\<exists>s3. halt traced_1_3 ''disk full'' []
            ((started 0)\<lparr>funcs := [''void load()'', ''int main()'']\<rparr>) =
          seq (halt_present traced_1_3 ''disk full'') (stack_trace_end traced_1_3) s3 \<and>
        funcs s3 = [''int main()''] \<and>
        syslog_file s3 = syslog_file (started 0) @
          [''[00:00:00] [CRITICAL] Software Failure, Halting Execution'',
           ''[00:00:00] [CRITICAL] disk full'',
           ''[00:00:00] Stack trace follows:'',
           ''[00:00:00] 2: void guru::halt(std::string, ...)'',
           ''[00:00:00] 1: void load()'',
           ''[00:00:00] 0: int main()'']) \<and>
   (\<exists>s3. halt shipped_1_0 ''disk full'' [] ((initial 0)\<lparr>funcs := [''int main()'']\<rparr>) =
          seq (halt_present shipped_1_0 ''disk full'') (stack_trace_end shipped_1_0) s3 \<and>
        funcs s3 = [''int main()''] \<and> syslog_file s3 = [])"
proof -
  let ?s = "(started 0)\<lparr>funcs := [''void load()'', ''int main()'']\<rparr>"
  let ?t = "(initial 0)\<lparr>funcs := [''int main()'']\<rparr>"
  have pl: "release traced_1_3 = R1_0 \<or> (plain ''disk full'' \<and> list_all plain (funcs ?s))"
    by (simp add: plain_def)
  have sz: "release traced_1_3 = R1_3 \<or> length (funcs ?s) < 2 ^ 32"
    by (simp add: traced_1_3_def)
  have pl0: "release shipped_1_0 = R1_0 \<or> (plain ''disk full'' \<and> list_all plain (funcs ?t))"
    by (simp add: shipped_1_0_def)
  have sz0: "release shipped_1_0 = R1_3 \<or> length (funcs ?t) < 2 ^ 32"
    by simp
  let ?fs = "if stack_trace_enabled traced_1_3 then [last (pf_halt traced_1_3 # funcs ?s)]
             else funcs ?s"
  let ?ls = "syslog_file ?s @
             (if syslog_open ?s then
                (if last_log_message ?s = halt_banner then []
                 else [log_line ?s GURU_CRITICAL halt_banner]) @
                (if ''disk full'' = halt_banner then [] else [log_line ?s GURU_CRITICAL ''disk full'']) @
                (if stack_trace_enabled traced_1_3 then
                   (if ''disk full'' = trace_heading then []
                    else [log_line ?s GURU_STACK trace_heading]) @
                   map (log_line ?s GURU_STACK) (trace_lines (pf_halt traced_1_3 # funcs ?s))
                 else [])
              else [])"
  have frames: "?fs = [''int main()'']" by code_simp
  have lines: "?ls = syslog_file (started 0) @
          [''[00:00:00] [CRITICAL] Software Failure, Halting Execution'',
           ''[00:00:00] [CRITICAL] disk full'',
           ''[00:00:00] Stack trace follows:'',
           ''[00:00:00] 2: void guru::halt(std::string, ...)'',
           ''[00:00:00] 1: void load()'',
           ''[00:00:00] 0: int main()'']"
    by code_simp
  obtain s3 where h: "halt traced_1_3 ''disk full'' [] ?s =
          seq (halt_present traced_1_3 ''disk full'') (stack_trace_end traced_1_3) s3"
    and f: "funcs s3 = ?fs" and w: "syslog_file s3 = ?ls"
    using halt_drains_stack [OF pl sz, of "[]"] by blast
  have one: "\<exists>s3. halt traced_1_3 ''disk full'' [] ?s =
          seq (halt_present traced_1_3 ''disk full'') (stack_trace_end traced_1_3) s3 \<and>
        funcs s3 = [''int main()''] \<and>
        syslog_file s3 = syslog_file (started 0) @
          [''[00:00:00] [CRITICAL] Software Failure, Halting Execution'',
           ''[00:00:00] [CRITICAL] disk full'',
           ''[00:00:00] Stack trace follows:'',
           ''[00:00:00] 2: void guru::halt(std::string, ...)'',
           ''[00:00:00] 1: void load()'',
           ''[00:00:00] 0: int main()'']"
    by (rule exI [of _ s3]) (intro conjI h trans [OF f frames] trans [OF w lines])
  let ?ft = "if stack_trace_enabled shipped_1_0 then [last (pf_halt shipped_1_0 # funcs ?t)]
             else funcs ?t"
  let ?lt = "syslog_file ?t @
             (if syslog_open ?t then
                (if last_log_message ?t = halt_banner then []
                 else [log_line ?t GURU_CRITICAL halt_banner]) @
                (if ''disk full'' = halt_banner then [] else [log_line ?t GURU_CRITICAL ''disk full'']) @
                (if stack_trace_enabled shipped_1_0 then
                   (if ''disk full'' = trace_heading then []
                    else [log_line ?t GURU_STACK trace_heading]) @
                   map (log_line ?t GURU_STACK) (trace_lines (pf_halt shipped_1_0 # funcs ?t))
                 else [])
              else [])"
  have frames0: "?ft = [''int main()'']" by code_simp
  have lines0: "?lt = []" by code_simp
  obtain t3 where h0: "halt shipped_1_0 ''disk full'' [] ?t =
          seq (halt_present shipped_1_0 ''disk full'') (stack_trace_end shipped_1_0) t3"
    and f0: "funcs t3 = ?ft" and w0: "syslog_file t3 = ?lt"
    using halt_drains_stack [OF pl0 sz0, of "[]"] by blast
  have two: "\<exists>s3. halt shipped_1_0 ''disk full'' [] ?t =
          seq (halt_present shipped_1_0 ''disk full'') (stack_trace_end shipped_1_0) s3 \<and>
        funcs s3 = [''int main()''] \<and> syslog_file s3 = []"
    by (rule exI [of _ t3]) (intro conjI h0 trans [OF f0 frames0] trans [OF w0 lines0])
  show ?thesis using one two by (rule conjI)
qed

end
